theory Spec2Isabelle
  imports Complex_Main
begin

section \<open>Samples: floating-point values with their special values\<close>

text \<open>
  A sample is a NumPy floating-point number. The model keeps the special values of
  IEEE 754 (both infinities and NaN) and computes on the finite values in exact real
  arithmetic: rounding, overflow, underflow and the sign of zero are not modelled.
\<close>

datatype sample = Fin real | PInf | NInf | NaN

datatype error = ZeroDivisionError | ValueError | ParameterError

fun isfinite :: "sample \<Rightarrow> bool" where
  "isfinite (Fin r) = True"
| "isfinite PInf = False"
| "isfinite NInf = False"
| "isfinite NaN = False"

fun isnan :: "sample \<Rightarrow> bool" where
  "isnan NaN = True"
| "isnan (Fin r) = False"
| "isnan PInf = False"
| "isnan NInf = False"

fun fneg :: "sample \<Rightarrow> sample" where
  "fneg (Fin r) = Fin (- r)"
| "fneg PInf = NInf"
| "fneg NInf = PInf"
| "fneg NaN = NaN"

fun fabs :: "sample \<Rightarrow> sample" where
  "fabs (Fin r) = Fin \<bar>r\<bar>"
| "fabs PInf = PInf"
| "fabs NInf = PInf"
| "fabs NaN = NaN"

fun fadd :: "sample \<Rightarrow> sample \<Rightarrow> sample" where
  "fadd NaN y = NaN"
| "fadd x NaN = NaN"
| "fadd (Fin a) (Fin b) = Fin (a + b)"
| "fadd (Fin a) PInf = PInf"
| "fadd (Fin a) NInf = NInf"
| "fadd PInf (Fin b) = PInf"
| "fadd NInf (Fin b) = NInf"
| "fadd PInf PInf = PInf"
| "fadd NInf NInf = NInf"
| "fadd PInf NInf = NaN"
| "fadd NInf PInf = NaN"

definition fsub :: "sample \<Rightarrow> sample \<Rightarrow> sample" where
  "fsub x y = fadd x (fneg y)"

text \<open>The infinity with the sign of a non-zero real.\<close>

definition inf_of_sign :: "real \<Rightarrow> sample" where
  "inf_of_sign r = (if 0 < r then PInf else NInf)"

fun fmul :: "sample \<Rightarrow> sample \<Rightarrow> sample" where
  "fmul NaN y = NaN"
| "fmul x NaN = NaN"
| "fmul (Fin a) (Fin b) = Fin (a * b)"
| "fmul (Fin a) PInf = (if a = 0 then NaN else inf_of_sign a)"
| "fmul (Fin a) NInf = (if a = 0 then NaN else inf_of_sign (- a))"
| "fmul PInf (Fin b) = (if b = 0 then NaN else inf_of_sign b)"
| "fmul NInf (Fin b) = (if b = 0 then NaN else inf_of_sign (- b))"
| "fmul PInf PInf = PInf"
| "fmul NInf NInf = PInf"
| "fmul PInf NInf = NInf"
| "fmul NInf PInf = NInf"

text \<open>
  Division of arrays never raises in NumPy: a finite value divided by zero is an
  infinity (NaN for \<open>0 / 0\<close>). A zero of the model stands for \<open>+0.0\<close>.
\<close>

fun fdiv :: "sample \<Rightarrow> sample \<Rightarrow> sample" where
  "fdiv NaN y = NaN"
| "fdiv x NaN = NaN"
| "fdiv (Fin a) (Fin b) =
     (if b = 0 then (if a = 0 then NaN else inf_of_sign a) else Fin (a / b))"
| "fdiv (Fin a) PInf = Fin 0"
| "fdiv (Fin a) NInf = Fin 0"
| "fdiv PInf (Fin b) = (if 0 \<le> b then PInf else NInf)"
| "fdiv NInf (Fin b) = (if 0 \<le> b then NInf else PInf)"
| "fdiv PInf PInf = NaN"
| "fdiv NInf NInf = NaN"
| "fdiv PInf NInf = NaN"
| "fdiv NInf PInf = NaN"

text \<open>The comparison \<open>x < y\<close>: false as soon as one side is NaN.\<close>

fun fless :: "sample \<Rightarrow> sample \<Rightarrow> bool" where
  "fless NaN y = False"
| "fless x NaN = False"
| "fless (Fin a) (Fin b) = (a < b)"
| "fless (Fin a) PInf = True"
| "fless (Fin a) NInf = False"
| "fless PInf y = False"
| "fless NInf (Fin b) = True"
| "fless NInf PInf = True"
| "fless NInf NInf = False"

text \<open>\<open>np.maximum\<close>: the larger of two values, NaN as soon as one of them is NaN.\<close>

definition fmax :: "sample \<Rightarrow> sample \<Rightarrow> sample" where
  "fmax x y = (if isnan x then x else if isnan y then y else if fless x y then y else x)"

section \<open>The NumPy, SciPy and librosa calls of the pipeline\<close>

definition np_abs :: "sample list \<Rightarrow> sample list" where
  "np_abs xs = map fabs xs"

text \<open>
  \<open>np.max\<close> raises ValueError on an array of size zero (the reduction has no identity)
  and propagates NaN.
\<close>

fun np_max :: "sample list \<Rightarrow> error + sample" where
  "np_max [] = Inl ValueError"
| "np_max (x # xs) = Inr (foldl fmax x xs)"

text \<open>
  \<open>numpy.poly\<close>: the coefficients, highest power first, of the monic polynomial with the
  given roots; each root convolves the coefficients with \<open>[1, -r]\<close>.
\<close>

definition convolve_root :: "'a::comm_ring_1 list \<Rightarrow> 'a \<Rightarrow> 'a list" where
  "convolve_root cs r = map2 (+) (cs @ [0]) (0 # map (\<lambda>c. - r * c) cs)"

definition np_poly :: "'a::comm_ring_1 list \<Rightarrow> 'a list" where
  "np_poly rs = foldl convolve_root [1] rs"

text \<open>
  \<open>scipy.signal.buttap\<close>: the poles of the analog Butterworth prototype of order \<open>n\<close>,
  \<open>-exp(1j * pi * m / (2 * n))\<close> for \<open>m = -n+1, -n+3, ..., n-1\<close>.
\<close>

definition buttap :: "nat \<Rightarrow> complex list" where
  "buttap n = map (\<lambda>j. - cis (pi * (2 * real j + 1 - real n) / (2 * real n))) [0..<n]"

text \<open>
  \<open>scipy.signal.butter(N, Wn, btype='low', analog=False)\<close>, in exact arithmetic: the
  order must be a non-negative integer and the critical frequency must satisfy
  \<open>0 < Wn < 1\<close> (ValueError otherwise); the prototype is scaled to the pre-warped
  frequency \<open>4 * tan (pi * Wn / 2)\<close> (\<open>lp2lp_zpk\<close>), mapped by the bilinear transform with
  \<open>fs = 2\<close> (\<open>bilinear_zpk\<close>: \<open>N\<close> zeros at \<open>-1\<close>), and returned as numerator and
  denominator coefficients (\<open>zpk2tf\<close>).
\<close>

definition butter :: "int \<Rightarrow> real \<Rightarrow> error + (real list \<times> real list)" where
  "butter N Wn =
     (if N < 0 then Inl ValueError
      else if Wn \<le> 0 \<or> 1 \<le> Wn then Inl ValueError
      else
        let n = nat N;
            warped = 4 * tan (pi * Wn / 2);
            p = map (\<lambda>q. complex_of_real warped * q) (buttap n);
            k = warped ^ n;
            p_z = map (\<lambda>q. (4 + q) / (4 - q)) p;
            z_z = replicate n (- 1);
            k_z = k * Re (1 / prod_list (map (\<lambda>q. 4 - q) p))
        in Inr (map (\<lambda>c. k_z * c) (np_poly z_z), map Re (np_poly p_z)))"

text \<open>
  \<open>scipy.signal.lfilter(b, a, x)\<close>: the direct form II transposed filter. Each output is
  \<open>y = z[0] + b[0] * x\<close>, and the delays become
  \<open>z[i] = z[i+1] + b[i+1] * x - a[i+1] * y\<close>, the last one \<open>b[n-1] * x - a[n-1] * y\<close>.
\<close>

fun delays :: "real list \<Rightarrow> real list \<Rightarrow> sample list \<Rightarrow> sample \<Rightarrow> sample \<Rightarrow> sample list" where
  "delays (b # bs) (a # as) (z # z1 # zs) x y =
     fsub (fadd z1 (fmul x (Fin b))) (fmul y (Fin a)) # delays bs as (z1 # zs) x y"
| "delays (b # bs) (a # as) [z] x y = [fsub (fmul x (Fin b)) (fmul y (Fin a))]"
| "delays bs as zs x y = []"

fun linear_filter :: "real list \<Rightarrow> real list \<Rightarrow> sample list \<Rightarrow> sample list \<Rightarrow> sample list" where
  "linear_filter (b0 # bs) (a0 # as) z (x # xs) =
     (let y = (case z of [] \<Rightarrow> fmul x (Fin b0) | z0 # zs \<Rightarrow> fadd z0 (fmul (Fin b0) x))
      in y # linear_filter (b0 # bs) (a0 # as) (delays bs as z x y) xs)"
| "linear_filter b a z xs = []"

text \<open>
  The coefficients are padded with zeros to a common length and divided by \<open>a[0]\<close>;
  \<open>a[0] = 0\<close> is refused with ValueError. The delays start at zero. The pipeline only
  calls \<open>lfilter\<close> with the coefficients that \<open>butter\<close> returns.
\<close>

definition lfilter :: "real list \<Rightarrow> real list \<Rightarrow> sample list \<Rightarrow> error + sample list" where
  "lfilter b a x =
     (case a of
        [] \<Rightarrow> Inl ValueError
      | a0 # as \<Rightarrow>
          if a0 = 0 then Inl ValueError
          else
            let n = max (length b) (length a);
                b' = map (\<lambda>c. c / a0) (b @ replicate (n - length b) 0);
                a' = map (\<lambda>c. c / a0) (a @ replicate (n - length a) 0)
            in Inr (linear_filter b' a' (replicate (n - 1) (Fin 0)) x))"

text \<open>\<open>numpy.finfo(float64).tiny\<close>, the smallest positive normal double.\<close>

definition tiny :: real where
  "tiny = 1 / 2 ^ 1022"

text \<open>
  \<open>librosa.util.normalize(S)\<close> with its defaults (\<open>norm = inf\<close>, \<open>axis = 0\<close>,
  \<open>threshold = tiny(S)\<close>, \<open>fill = None\<close>): ParameterError unless every value is finite;
  the peak \<open>max |S|\<close> is replaced by \<open>1.0\<close> when it is below the threshold, and \<open>S\<close> is
  divided by it.
\<close>

definition normalize :: "sample list \<Rightarrow> error + sample list" where
  "normalize S =
     (if \<not> list_all isfinite S then Inl ParameterError
      else case np_max (np_abs S) of
        Inl e \<Rightarrow> Inl e
      | Inr peak \<Rightarrow>
          let scale = (if fless peak (Fin tiny) then Fin 1 else peak)
          in Inr (map (\<lambda>s. fdiv s scale) S))"

section \<open>The source: filter design, filtering and gain compensation\<close>

text \<open>
  \<open>butter_lowpass_filter\<close>, lines 64 to 68: the normalised cutoff handed to \<open>butter\<close>.
  \<open>fs\<close> and \<open>cutoff\<close> are Python numbers, so a zero Nyquist frequency raises
  ZeroDivisionError.
\<close>

definition normal_cutoff :: "real \<Rightarrow> real \<Rightarrow> error + real" where
  "normal_cutoff cutoff fs =
     (let nyq = 0.5 * fs
      in if nyq = 0 then Inl ZeroDivisionError
         else let nc = cutoff / nyq
              in if 1 \<le> nc then Inr 0.99 else Inr nc)"

text \<open>Lines 64 to 69: the designed coefficients \<open>(b, a)\<close>.\<close>

definition design :: "real \<Rightarrow> real \<Rightarrow> int \<Rightarrow> error + (real list \<times> real list)" where
  "design cutoff fs order =
     (case normal_cutoff cutoff fs of
        Inl e \<Rightarrow> Inl e
      | Inr nc \<Rightarrow> butter order nc)"

definition butter_lowpass_filter :: "sample list \<Rightarrow> real \<Rightarrow> real \<Rightarrow> int \<Rightarrow> error + sample list" where
  "butter_lowpass_filter data cutoff fs order =
     (case design cutoff fs order of
        Inl e \<Rightarrow> Inl e
      | Inr (b, a) \<Rightarrow> lfilter b a data)"

text \<open>\<open>process_audio\<close>, lines 82 to 86: the gain compensation of the filtered buffer.\<close>

definition gain_compensation :: "sample list \<Rightarrow> sample list \<Rightarrow> error + sample list" where
  "gain_compensation data filtered_data =
     (case np_max (np_abs data) of
        Inl e \<Rightarrow> Inl e
      | Inr max_val \<Rightarrow>
          if fless (Fin 0) max_val
          then (case normalize filtered_data of
                  Inl e \<Rightarrow> Inl e
                | Inr nrm \<Rightarrow> Inr (map (\<lambda>s. fmul s max_val) nrm))
          else Inr filtered_data)"

text \<open>\<open>process_audio\<close>: the filter with its default order 5, then the gain compensation.\<close>

definition process_audio :: "sample list \<Rightarrow> real \<Rightarrow> real \<Rightarrow> error + sample list" where
  "process_audio data fs cutoff_freq =
     (case butter_lowpass_filter data cutoff_freq fs 5 of
        Inl e \<Rightarrow> Inl e
      | Inr filtered_data \<Rightarrow> gain_compensation data filtered_data)"

section \<open>The transfer function of a designed filter\<close>

text \<open>
  \<open>numpy.polyval\<close>: the value of a polynomial, coefficients highest power first, by
  Horner's scheme.
\<close>

definition polyval :: "'a::comm_ring_1 list \<Rightarrow> 'a \<Rightarrow> 'a" where
  "polyval cs x = foldl (\<lambda>acc c. acc * x + c) 0 cs"

text \<open>
  The recurrence of \<open>lfilter\<close> with coefficients \<open>b\<close> and \<open>a\<close> of the same length has the
  transfer function \<open>H(z) = (b[0] + b[1] z^-1 + ...) / (a[0] + a[1] z^-1 + ...)\<close>, which
  is the quotient of the two polynomials in \<open>z\<close>. Its value at \<open>z = exp(j * pi * W)\<close> is
  the response to the frequency \<open>W\<close> (in units of the Nyquist frequency): \<open>z = 1\<close> is
  DC and \<open>z = -1\<close> is the Nyquist frequency.
\<close>

definition freq_response :: "real list \<Rightarrow> real list \<Rightarrow> complex \<Rightarrow> complex" where
  "freq_response b a z = polyval (map complex_of_real b) z / polyval (map complex_of_real a) z"

section \<open>The designed coefficients\<close>

lemma length_convolve_root: "length (convolve_root cs r) = Suc (length cs)"
  by (simp add: convolve_root_def)

lemma hd_convolve_root: "cs \<noteq> [] \<Longrightarrow> hd (convolve_root cs r) = hd cs"
  by (cases cs) (simp_all add: convolve_root_def)

lemma foldl_convolve_root:
  "cs \<noteq> [] \<Longrightarrow> length (foldl convolve_root cs rs) = length cs + length rs
     \<and> hd (foldl convolve_root cs rs) = hd cs"
proof (induction rs arbitrary: cs)
  case Nil
  then show ?case by simp
next
  case (Cons r rs)
  have ne: "convolve_root cs r \<noteq> []"
    using length_convolve_root [of cs r] by auto
  show ?case
    using Cons.IH [OF ne] Cons.prems
    by (simp add: length_convolve_root hd_convolve_root)
qed

lemma length_np_poly: "length (np_poly rs) = Suc (length rs)"
  using foldl_convolve_root [of "[1]" rs] by (simp add: np_poly_def)

lemma hd_np_poly: "hd (np_poly rs) = 1"
  using foldl_convolve_root [of "[1]" rs] by (simp add: np_poly_def)

lemma butter_returns:
  assumes "0 \<le> N" and "0 < Wn" and "Wn < 1"
  shows "\<exists>b as. butter N Wn = Inr (b, 1 # as) \<and> length b = Suc (nat N) \<and> length as = nat N"
proof -
  define p where "p = map (\<lambda>q. (4 + q) / (4 - q))
      (map (\<lambda>q. complex_of_real (4 * tan (pi * Wn / 2)) * q) (buttap (nat N)))"
  have lp: "length p = nat N" by (simp add: p_def buttap_def)
  obtain c cs where a: "map Re (np_poly p) = c # cs"
    using length_np_poly [of p] by (cases "map Re (np_poly p)") auto
  have "c = hd (map Re (np_poly p))" using a by simp
  also have "\<dots> = Re (hd (np_poly p))"
    using length_np_poly [of p] by (cases "np_poly p") auto
  finally have c: "c = 1" by (simp add: hd_np_poly)
  have lcs: "length cs = nat N"
    using a length_np_poly [of p] lp
    by (metis length_map length_Cons nat.inject)
  show ?thesis
    using assms a c lcs lp
    by (simp add: butter_def Let_def p_def length_np_poly)
qed

lemma normal_cutoff_cases:
  "normal_cutoff cutoff fs =
     (if fs = 0 then Inl ZeroDivisionError
      else if 1 \<le> cutoff / (fs / 2) then Inr 0.99 else Inr (cutoff / (fs / 2)))"
  by (simp add: normal_cutoff_def Let_def)

lemma butter_fails_iff: "isl (butter N Wn) = (N < 0 \<or> Wn \<le> 0 \<or> 1 \<le> Wn)"
  by (auto simp: butter_def Let_def)

lemma butter_error: "butter N Wn = Inl e \<Longrightarrow> e = ValueError"
  by (auto simp: butter_def Let_def split: if_splits)

section \<open>Filter design: clamping and errors\<close>

text \<open>
  C10 (the clamp threshold is strict). For a positive sample rate and a cutoff with
  \<open>cutoff / (fs / 2) < 1\<close>, the normalised cutoff goes to \<open>butter\<close> unchanged, however close
  to 1 it is, and also when the cutoff is zero or negative: a non-positive normalised
  cutoff is not raised to a valid value.
\<close>

theorem clamp_threshold_strict:
  assumes "0 < fs"
  shows "(cutoff / (fs / 2) < 1 \<longrightarrow>
            normal_cutoff cutoff fs = Inr (cutoff / (fs / 2))
          \<and> design cutoff fs order = butter order (cutoff / (fs / 2))
          \<and> butter_lowpass_filter data cutoff fs order =
                (case butter order (cutoff / (fs / 2)) of
                   Inl e \<Rightarrow> Inl e | Inr (b, a) \<Rightarrow> lfilter b a data))
       \<and> (cutoff \<le> 0 \<longrightarrow>
            cutoff / (fs / 2) \<le> 0 \<and> normal_cutoff cutoff fs = Inr (cutoff / (fs / 2)))"
proof (intro conjI impI)
  assume "cutoff / (fs / 2) < 1"
  then show "normal_cutoff cutoff fs = Inr (cutoff / (fs / 2))"
    using assms by (simp add: normal_cutoff_cases)
  then show "design cutoff fs order = butter order (cutoff / (fs / 2))"
    by (simp add: design_def)
  then show "butter_lowpass_filter data cutoff fs order =
      (case butter order (cutoff / (fs / 2)) of
         Inl e \<Rightarrow> Inl e | Inr (b, a) \<Rightarrow> lfilter b a data)"
    by (simp add: butter_lowpass_filter_def)
next
  assume c: "cutoff \<le> 0"
  then show le: "cutoff / (fs / 2) \<le> 0"
    using assms by (simp add: divide_le_0_iff)
  then have "\<not> 1 \<le> cutoff / (fs / 2)" by linarith
  then show "normal_cutoff cutoff fs = Inr (cutoff / (fs / 2))"
    using assms unfolding normal_cutoff_cases by simp
qed

theorem clamp_threshold_strict_witness:
  "normal_cutoff 22049 44100 = Inr (22049 / 22050)
    \<and> design 22049 44100 5 = butter 5 (22049 / 22050)
    \<and> normal_cutoff (- 100) 44100 = Inr (- 2 / 441)
    \<and> normal_cutoff 0 44100 = Inr 0"
  using clamp_threshold_strict [of 44100 22049 5 "[]"]
    clamp_threshold_strict [of 44100 "- 100" 5 "[]"]
    clamp_threshold_strict [of 44100 0 5 "[]"]
  by simp

text \<open>
  C7, as amended (the error contract of the design). The design fails exactly when the
  sample rate is zero (ZeroDivisionError), or the order is negative, or the normalised
  cutoff \<open>cutoff / (fs / 2)\<close> is not positive (both the ValueError of \<open>butter\<close>). A cutoff
  at or above the Nyquist frequency never makes it fail.
\<close>

theorem design_error_contract:
  "isl (design cutoff fs order) = (fs = 0 \<or> order < 0 \<or> cutoff / (fs / 2) \<le> 0)
   \<and> (design cutoff fs order = Inl ZeroDivisionError) = (fs = 0)
   \<and> (design cutoff fs order = Inl ValueError) = (fs \<noteq> 0 \<and> (order < 0 \<or> cutoff / (fs / 2) \<le> 0))
   \<and> design cutoff fs order \<noteq> Inl ParameterError"
proof -
  have 1: "isl (design cutoff fs order) = (fs = 0 \<or> order < 0 \<or> cutoff / (fs / 2) \<le> 0)"
    by (simp add: design_def normal_cutoff_cases butter_fails_iff)
  have 2: "(design cutoff fs order = Inl ZeroDivisionError) = (fs = 0)"
    by (auto simp: design_def normal_cutoff_cases dest: butter_error)
  have 3: "design cutoff fs order \<noteq> Inl ParameterError"
    by (auto simp: design_def normal_cutoff_cases dest: butter_error)
  have 4: "(design cutoff fs order = Inl ValueError)
      = (fs \<noteq> 0 \<and> (order < 0 \<or> cutoff / (fs / 2) \<le> 0))"
  proof (cases "design cutoff fs order")
    case (Inl e)
    then have "e = ZeroDivisionError \<or> e = ValueError"
      using 3 by (cases e) auto
    then show ?thesis using 1 2 Inl by auto
  next
    case (Inr r)
    then show ?thesis using 1 by auto
  qed
  show ?thesis using 1 2 3 4 by blast
qed

text \<open>
  The claim as stated fails: with a positive sample rate and order, a zero cutoff makes
  the design fail; with a negative sample rate and a negative cutoff it succeeds.
\<close>

theorem design_error_contract_counterexample:
  "design 0 44100 5 = Inl ValueError \<and> \<not> isl (design (- 3000) (- 44100) 5)"
  by (simp add: design_def normal_cutoff_cases butter_fails_iff butter_def)

section \<open>The filter on the designed coefficients\<close>

lemma butter_Inr:
  assumes "butter N Wn = Inr (b, a)"
  shows "\<exists>as. a = 1 # as \<and> length b = Suc (length as) \<and> length as = nat N"
proof -
  have "\<not> isl (butter N Wn)" using assms by simp
  then have "0 \<le> N" "0 < Wn" "Wn < 1" by (auto simp: butter_fails_iff)
  from butter_returns [OF this] assms show ?thesis by auto
qed

lemma design_Inl:
  "design cutoff fs order = Inl e \<Longrightarrow> e = (if fs = 0 then ZeroDivisionError else ValueError)"
  by (auto simp: design_def normal_cutoff_cases dest: butter_error split: if_splits)

lemma design_Inr:
  assumes "design cutoff fs order = Inr (b, a)"
  shows "fs \<noteq> 0 \<and> (\<exists>as. a = 1 # as \<and> length b = Suc (length as) \<and> length as = nat order)"
  using assms
  by (auto simp: design_def normal_cutoff_cases dest: butter_Inr split: if_splits)

lemma lfilter_monic:
  "length b = Suc (length as) \<Longrightarrow>
   lfilter b (1 # as) x = Inr (linear_filter b (1 # as) (replicate (length as) (Fin 0)) x)"
  by (simp add: lfilter_def Let_def max_def)

lemma butter_lowpass_filter_cases:
  "butter_lowpass_filter data cutoff fs order =
     (case design cutoff fs order of
        Inl e \<Rightarrow> Inl (if fs = 0 then ZeroDivisionError else ValueError)
      | Inr (b, a) \<Rightarrow> Inr (linear_filter b a (replicate (nat order) (Fin 0)) data))"
proof (cases "design cutoff fs order")
  case (Inl e)
  then show ?thesis
    using design_Inl [OF Inl] by (simp add: butter_lowpass_filter_def)
next
  case (Inr r)
  obtain b a where r: "r = (b, a)" by (cases r)
  from design_Inr [of cutoff fs order b a] Inr r
  obtain as where "a = 1 # as" "length b = Suc (length as)" "length as = nat order"
    by auto
  then show ?thesis
    using Inr r lfilter_monic [of b as data] by (simp add: butter_lowpass_filter_def)
qed

lemma process_audio_Nil:
  "process_audio [] fs cutoff = Inl (if fs = 0 then ZeroDivisionError else ValueError)"
proof (cases "design cutoff fs 5")
  case (Inl e)
  then show ?thesis
    by (simp add: process_audio_def butter_lowpass_filter_cases)
next
  case (Inr r)
  obtain b a where r: "r = (b, a)" by (cases r)
  have "fs \<noteq> 0" using design_Inr [of cutoff fs 5 b a] Inr r by simp
  then show ?thesis
    using Inr r
    by (simp add: process_audio_def butter_lowpass_filter_cases
        gain_compensation_def np_abs_def)
qed

text \<open>
  C4, as amended (the empty buffer). On a buffer of length 0 the pipeline returns no
  buffer: it raises ZeroDivisionError when the sample rate is zero and ValueError
  otherwise (from the design, or from the maximum of an empty array in the gain
  compensation).
\<close>

theorem empty_buffer_raises:
  "process_audio [] fs cutoff = Inl (if fs = 0 then ZeroDivisionError else ValueError)"
  by (rule process_audio_Nil)

text \<open>The claim as stated fails at the empty buffer, 44100 Hz and a cutoff of 3000 Hz.\<close>

theorem empty_buffer_counterexample:
  "process_audio [] 44100 3000 \<noteq> Inr [] \<and> process_audio [] 44100 3000 = Inl ValueError"
  by (simp add: process_audio_Nil)

section \<open>NaN in the original buffer\<close>

lemma foldl_fmax_NaN: "foldl fmax NaN xs = NaN"
  by (induction xs) (simp_all add: fmax_def)

lemma foldl_fmax_has_NaN: "NaN \<in> set xs \<Longrightarrow> foldl fmax x xs = NaN"
proof (induction xs arbitrary: x)
  case Nil
  then show ?case by simp
next
  case (Cons y ys)
  show ?case
  proof (cases "y = NaN")
    case True
    then have "fmax x y = NaN" by (cases x) (simp_all add: fmax_def)
    then show ?thesis by (simp add: foldl_fmax_NaN)
  next
    case False
    then show ?thesis using Cons by simp
  qed
qed

lemma fabs_NaN_iff: "fabs s = NaN \<longleftrightarrow> s = NaN"
  by (cases s) simp_all

lemma np_max_abs_NaN: "NaN \<in> set data \<Longrightarrow> np_max (np_abs data) = Inr NaN"
proof (cases data)
  case Nil
  assume "NaN \<in> set data"
  then show ?thesis using Nil by simp
next
  case (Cons x xs)
  assume n: "NaN \<in> set data"
  show ?thesis
  proof (cases "x = NaN")
    case True
    then show ?thesis using Cons by (simp add: np_abs_def foldl_fmax_NaN)
  next
    case False
    then have "NaN \<in> set xs" using n Cons by simp
    then have "NaN \<in> set (map fabs xs)" by (force simp: image_iff)
    then show ?thesis using Cons by (simp add: np_abs_def foldl_fmax_has_NaN)
  qed
qed

text \<open>
  C9 (NaN disables the gain compensation). If the original buffer contains a NaN sample,
  the computed peak \<open>max |data|\<close> is NaN, the test \<open>peak > 0\<close> is false, the gain
  compensation returns the filtered buffer unchanged, and the pipeline returns exactly
  what the filter returns.
\<close>

theorem nan_disables_gain_compensation:
  assumes "NaN \<in> set data"
  shows "np_max (np_abs data) = Inr NaN
       \<and> \<not> fless (Fin 0) NaN
       \<and> gain_compensation data filtered = Inr filtered
       \<and> process_audio data fs cutoff = butter_lowpass_filter data cutoff fs 5"
proof -
  have m: "np_max (np_abs data) = Inr NaN"
    using assms by (rule np_max_abs_NaN)
  have g: "\<And>f. gain_compensation data f = Inr f"
    by (simp add: gain_compensation_def m)
  show ?thesis
    by (simp add: m g process_audio_def split: sum.splits)
qed

theorem nan_disables_gain_compensation_witness:
  "np_max (np_abs [Fin 1, NaN, Fin (- 2)]) = Inr NaN
   \<and> gain_compensation [Fin 1, NaN, Fin (- 2)] [Fin 3, NaN, NaN] = Inr [Fin 3, NaN, NaN]
   \<and> process_audio [Fin 1, NaN, Fin (- 2)] 44100 3000
       = butter_lowpass_filter [Fin 1, NaN, Fin (- 2)] 3000 44100 5"
  using nan_disables_gain_compensation [of "[Fin 1, NaN, Fin (- 2)]" "[Fin 3, NaN, NaN]" 44100 3000]
  by simp

section \<open>The filter: length, silence and finite values\<close>

lemma length_linear_filter:
  "length (linear_filter (b0 # bs) (a0 # as) z xs) = length xs"
  by (induction xs arbitrary: z) (simp_all add: Let_def)

lemma delays_zero:
  "k \<le> length bs \<Longrightarrow> k \<le> length as \<Longrightarrow>
   delays bs as (replicate k (Fin 0)) (Fin 0) (Fin 0) = replicate k (Fin 0)"
proof (induction k arbitrary: bs as)
  case 0
  then show ?case by simp
next
  case (Suc k)
  obtain b bs' where bs: "bs = b # bs'" using Suc.prems(1) by (cases bs) auto
  obtain a as' where as: "as = a # as'" using Suc.prems(2) by (cases as) auto
  show ?case
  proof (cases k)
    case 0
    then show ?thesis using bs as by (simp add: fsub_def)
  next
    case (Suc k')
    have "delays bs' as' (replicate k (Fin 0)) (Fin 0) (Fin 0) = replicate k (Fin 0)"
      using Suc.IH [of bs' as'] Suc.prems bs as by simp
    then show ?thesis using bs as Suc by (simp add: fsub_def)
  qed
qed

lemma linear_filter_zero:
  "k \<le> length bs \<Longrightarrow> k \<le> length as \<Longrightarrow>
   linear_filter (b0 # bs) (a0 # as) (replicate k (Fin 0)) (replicate n (Fin 0))
     = replicate n (Fin 0)"
proof (induction n)
  case 0
  then show ?case by simp
next
  case (Suc n)
  have y: "(case replicate k (Fin 0) of [] \<Rightarrow> fmul (Fin 0) (Fin b0)
            | z0 # zs \<Rightarrow> fadd z0 (fmul (Fin b0) (Fin 0))) = Fin 0"
    by (cases k) simp_all
  show ?case
    using Suc by (simp add: y delays_zero Let_def)
qed

lemma isfinite_fadd: "isfinite x \<Longrightarrow> isfinite y \<Longrightarrow> isfinite (fadd x y)"
  by (cases x; cases y) simp_all

lemma isfinite_fmul: "isfinite x \<Longrightarrow> isfinite y \<Longrightarrow> isfinite (fmul x y)"
  by (cases x; cases y) simp_all

lemma isfinite_fsub: "isfinite x \<Longrightarrow> isfinite y \<Longrightarrow> isfinite (fsub x y)"
  by (cases x; cases y) (simp_all add: fsub_def)

lemma delays_finite:
  "list_all isfinite z \<Longrightarrow> isfinite x \<Longrightarrow> isfinite y \<Longrightarrow>
   list_all isfinite (delays bs as z x y)"
  by (induction bs as z x y rule: delays.induct)
    (simp_all add: isfinite_fadd isfinite_fmul isfinite_fsub)

lemma linear_filter_finite:
  "list_all isfinite z \<Longrightarrow> list_all isfinite xs \<Longrightarrow>
   list_all isfinite (linear_filter b a z xs)"
proof (induction b a z xs rule: linear_filter.induct)
  case (1 b0 bs a0 as z x xs)
  define y where "y = (case z of [] \<Rightarrow> fmul x (Fin b0) | z0 # zs \<Rightarrow> fadd z0 (fmul (Fin b0) x))"
  have fy: "isfinite y"
    using "1.prems" by (cases z) (simp_all add: y_def isfinite_fadd isfinite_fmul)
  have "list_all isfinite (delays bs as z x y)"
    using "1.prems" fy by (simp add: delays_finite)
  then have "list_all isfinite (linear_filter (b0 # bs) (a0 # as) (delays bs as z x y) xs)"
    using "1.IH" [of y] "1.prems" by (simp add: y_def)
  then show ?case using fy by (simp add: y_def Let_def)
qed simp_all

lemma list_all_isfinite_replicate: "list_all isfinite (replicate k (Fin 0))"
  by (induction k) simp_all

text \<open>What the filter returns, once the design has succeeded.\<close>

lemma butter_lowpass_filter_Inr:
  assumes "butter_lowpass_filter data cutoff fs order = Inr filtered"
  shows "length filtered = length data"
    and "list_all isfinite data \<Longrightarrow> list_all isfinite filtered"
    and "data = replicate n (Fin 0) \<Longrightarrow> filtered = replicate n (Fin 0)"
proof -
  obtain b a where d: "design cutoff fs order = Inr (b, a)"
    and f: "filtered = linear_filter b a (replicate (nat order) (Fin 0)) data"
    using assms
    by (auto simp: butter_lowpass_filter_cases split: sum.splits)
  obtain as where a: "a = 1 # as" and lb: "length b = Suc (length as)"
    and las: "length as = nat order"
    using design_Inr [OF d] by auto
  obtain b0 bs where b: "b = b0 # bs" using lb by (cases b) auto
  show "length filtered = length data"
    by (simp add: f a b length_linear_filter)
  show "list_all isfinite data \<Longrightarrow> list_all isfinite filtered"
    by (simp add: f linear_filter_finite list_all_isfinite_replicate)
  show "data = replicate n (Fin 0) \<Longrightarrow> filtered = replicate n (Fin 0)"
    using lb las by (simp add: f a b linear_filter_zero)
qed

lemma butter_lowpass_filter_returns:
  assumes "fs \<noteq> 0" and "0 < cutoff / (fs / 2)" and "0 \<le> order"
  shows "\<exists>filtered. butter_lowpass_filter data cutoff fs order = Inr filtered"
proof -
  have "\<not> isl (design cutoff fs order)"
    using assms by (simp add: design_def normal_cutoff_cases butter_fails_iff)
  then show ?thesis
    by (auto simp: butter_lowpass_filter_cases split: sum.splits)
qed

section \<open>Peaks of finite buffers\<close>

lemma isfinite_map_Fin: "list_all isfinite (map Fin rs)"
  by (induction rs) simp_all

lemma isfinite_ex_map: "list_all isfinite xs \<Longrightarrow> \<exists>rs. xs = map Fin rs"
proof (induction xs)
  case Nil
  then show ?case by simp
next
  case (Cons x xs)
  then obtain rs where "xs = map Fin rs" by auto
  moreover obtain r where "x = Fin r" using Cons.prems by (cases x) simp_all
  ultimately have "x # xs = map Fin (r # rs)" by simp
  then show ?case by (rule exI [of _ "r # rs"])
qed

lemma fmax_Fin: "fmax (Fin r) (Fin s) = Fin (max r s)"
  by (simp add: fmax_def max_def)

lemma foldl_fmax_Fin: "foldl fmax (Fin r) (map Fin rs) = Fin (foldl max r rs)"
  by (induction rs arbitrary: r) (simp_all add: fmax_Fin)

lemma foldl_max_Max: "foldl max (r::real) rs = Max (set (r # rs))"
proof -
  have "(\<lambda>x s. max s x) = (max :: real \<Rightarrow> real \<Rightarrow> real)"
    by (intro ext) (simp add: max.commute)
  then have "foldl max r rs = fold max rs r"
    by (simp add: foldl_conv_fold)
  also have "\<dots> = Max (set (r # rs))"
    by (rule Max.set_eq_fold [symmetric])
  finally show ?thesis .
qed

lemma np_max_abs_Fin:
  "rs \<noteq> [] \<Longrightarrow> np_max (np_abs (map Fin rs)) = Inr (Fin (Max (abs ` set rs)))"
proof (cases rs)
  case Nil
  assume "rs \<noteq> []"
  then show ?thesis using Nil by simp
next
  case (Cons r rs')
  have "np_max (np_abs (map Fin rs)) = Inr (foldl fmax (Fin \<bar>r\<bar>) (map Fin (map abs rs')))"
    using Cons by (simp add: np_abs_def comp_def)
  also have "\<dots> = Inr (Fin (Max (set (\<bar>r\<bar> # map abs rs'))))"
    by (simp only: foldl_fmax_Fin foldl_max_Max)
  finally show ?thesis using Cons by simp
qed

lemma peak_nonneg: "rs \<noteq> [] \<Longrightarrow> 0 \<le> Max (abs ` set (rs :: real list))"
proof -
  assume ne: "rs \<noteq> []"
  then obtain r where "r \<in> set rs" by (cases rs) auto
  then have "\<bar>r\<bar> \<le> Max (abs ` set rs)" by (intro Max_ge) auto
  then show ?thesis by linarith
qed

lemma tiny_pos: "0 < tiny"
  by (simp add: tiny_def)

text \<open>The gain compensation on finite buffers, in real arithmetic.\<close>

lemma normalize_Fin:
  assumes "qs \<noteq> []"
  shows "normalize (map Fin qs) =
     Inr (map (\<lambda>q. Fin (q / (if Max (abs ` set qs) < tiny then 1 else Max (abs ` set qs)))) qs)"
proof -
  let ?P = "Max (abs ` set qs)"
  have "?P < tiny \<or> ?P \<noteq> 0" using tiny_pos by linarith
  then show ?thesis
    using assms
    by (auto simp add: normalize_def isfinite_map_Fin np_max_abs_Fin Let_def comp_def)
qed

lemma gain_compensation_Fin:
  assumes "rs \<noteq> []" and "qs \<noteq> []"
  shows "gain_compensation (map Fin rs) (map Fin qs) =
     Inr (if 0 < Max (abs ` set rs)
          then map (\<lambda>q. Fin (q / (if Max (abs ` set qs) < tiny then 1 else Max (abs ` set qs))
                              * Max (abs ` set rs))) qs
          else map Fin qs)"
  using assms
  by (simp add: gain_compensation_def np_max_abs_Fin normalize_Fin comp_def)

lemma Max_abs_scaled:
  assumes "qs \<noteq> []" and "0 < P" and "P = Max (abs ` set qs)" and "0 < (M::real)"
  shows "Max (abs ` set (map (\<lambda>q. q / P * M) qs)) = M"
proof (rule Max_eqI)
  show "finite (abs ` set (map (\<lambda>q. q / P * M) qs))" by simp
next
  fix y assume "y \<in> abs ` set (map (\<lambda>q. q / P * M) qs)"
  then obtain q where q: "q \<in> set qs" and y: "y = \<bar>q / P * M\<bar>" by auto
  have "\<bar>q\<bar> \<le> P" using q assms(3) by simp
  then have "\<bar>q\<bar> / P \<le> 1" using assms(2) by (simp add: divide_le_eq)
  then have "\<bar>q\<bar> / P * M \<le> 1 * M" using assms(4) by (intro mult_right_mono) simp_all
  moreover have "y = \<bar>q\<bar> / P * M" using y assms(2,4) by (simp add: abs_mult)
  ultimately show "y \<le> M" by simp
next
  have "P \<in> abs ` set qs"
    using assms(1,3) Max_in [of "abs ` set qs"] by simp
  then obtain q where q: "q \<in> set qs" and P: "P = \<bar>q\<bar>" by auto
  have "\<bar>q / P * M\<bar> = M" using P assms(2,4) by (simp add: abs_mult)
  then show "M \<in> abs ` set (map (\<lambda>q. q / P * M) qs)"
    using q by (force simp: image_iff)
qed

section \<open>The order 5 design at half the Nyquist frequency\<close>

lemma conj_pair: "(4 + 4 * cis t) * (4 + 4 * cis (- t)) = complex_of_real (16 * (2 + 2 * cos t))"
proof -
  have "cos t * (cos t * 16) + sin t * (sin t * 16) = 16 * (cos t * cos t + sin t * sin t)"
    by (simp only: distrib_left mult.commute mult.left_commute)
  then have "cos t * (cos t * 16) + sin t * (sin t * 16) = 16" by simp
  then show ?thesis
    by (simp add: complex_eq_iff algebra_simps)
qed

lemma buttap_5:
  "buttap 5 = [- cis (- (2 * pi / 5)), - cis (- (pi / 5)), - cis 0, - cis (pi / 5), - cis (2 * pi / 5)]"
proof -
  have u: "[0..<5] = [0, 1, 2, 3, 4]" by (simp add: upt_rec)
  show ?thesis
    unfolding buttap_def u by (simp add: field_simps)
qed

text \<open>The first numerator coefficient of \<open>butter(5, 0.5)\<close>, about 0.0528.\<close>

lemma prod_poles_half:
  "prod_list (map (\<lambda>q. 4 - q) (map (\<lambda>q. complex_of_real 4 * q) (buttap 5)))
     = complex_of_real (2048 * ((2 + 2 * cos (pi / 5)) * (2 + 2 * cos (2 * pi / 5))))"
proof -
  let ?a = "4 + 4 * cis (pi / 5)" and ?a' = "4 + 4 * cis (- (pi / 5))"
  let ?b = "4 + 4 * cis (2 * pi / 5)" and ?b' = "4 + 4 * cis (- (2 * pi / 5))"
  have "prod_list (map (\<lambda>q. 4 - q) (map (\<lambda>q. complex_of_real 4 * q) (buttap 5)))
      = ?b' * (?a' * (8 * (?a * ?b)))"
    by (simp add: buttap_5)
  also have "\<dots> = 8 * ((?a * ?a') * (?b * ?b'))"
    by (simp only: mult.commute mult.left_commute)
  also have "\<dots> = 8 * (complex_of_real (16 * (2 + 2 * cos (pi / 5)))
                      * complex_of_real (16 * (2 + 2 * cos (2 * pi / 5))))"
    by (simp only: conj_pair)
  also have "\<dots> = complex_of_real (2048 * ((2 + 2 * cos (pi / 5)) * (2 + 2 * cos (2 * pi / 5))))"
    by (simp add: algebra_simps)
  finally show ?thesis .
qed

lemma butter_first_coefficient:
  assumes "0 \<le> N" and "0 < Wn" and "Wn < 1"
  shows "\<exists>bs as. butter N Wn =
      Inr (((4 * tan (pi * Wn / 2)) ^ nat N
            * Re (1 / prod_list (map (\<lambda>q. 4 - q)
                     (map (\<lambda>q. complex_of_real (4 * tan (pi * Wn / 2)) * q) (buttap (nat N)))))) # bs,
           1 # as)
      \<and> length bs = nat N \<and> length as = nat N"
proof -
  let ?K = "(4 * tan (pi * Wn / 2)) ^ nat N
            * Re (1 / prod_list (map (\<lambda>q. 4 - q)
                     (map (\<lambda>q. complex_of_real (4 * tan (pi * Wn / 2)) * q) (buttap (nat N)))))"
  obtain b as where r: "butter N Wn = Inr (b, 1 # as)"
    and lb: "length b = Suc (nat N)" and las: "length as = nat N"
    using butter_returns [OF assms] by auto
  have b: "b = map (\<lambda>c. ?K * c) (np_poly (replicate (nat N) (- 1)))"
    using r assms by (simp add: butter_def Let_def)
  obtain c cs where p: "np_poly (replicate (nat N) (- 1 :: real)) = c # cs"
    using length_np_poly [of "replicate (nat N) (- 1 :: real)"]
    by (cases "np_poly (replicate (nat N) (- 1 :: real))") auto
  have "c = 1" using hd_np_poly [of "replicate (nat N) (- 1 :: real)"] p by simp
  then have "b = ?K # map (\<lambda>c. ?K * c) cs" using b p by simp
  moreover have "length (map (\<lambda>c. ?K * c) cs) = nat N" using lb b p by simp
  ultimately show ?thesis using r las by blast
qed

lemma cos_fifth_nonneg: "0 \<le> cos (pi / 5)" "0 \<le> cos (2 * pi / 5)"
proof -
  show "0 \<le> cos (pi / 5)"
  proof (rule cos_ge_zero)
    show "- (pi / 2) \<le> pi / 5" using pi_gt_zero by linarith
    show "pi / 5 \<le> pi / 2" using pi_gt_zero by linarith
  qed
  show "0 \<le> cos (2 * pi / 5)"
  proof (rule cos_ge_zero)
    show "- (pi / 2) \<le> 2 * pi / 5" using pi_gt_zero by linarith
    show "2 * pi / 5 \<le> pi / 2" using pi_gt_zero by linarith
  qed
qed

lemma butter_5_half:
  "\<exists>bs as. butter 5 (1 / 2) =
      Inr (1 / (2 * ((2 + 2 * cos (pi / 5)) * (2 + 2 * cos (2 * pi / 5)))) # bs, 1 # as)
      \<and> length bs = 5 \<and> length as = 5"
proof -
  have t: "tan (pi * (1 / 2) / 2) = 1" using tan_45 by simp
  note c1 = cos_fifth_nonneg(1) and c2 = cos_fifth_nonneg(2)
  have pos: "0 < (2 + 2 * cos (pi / 5)) * (2 + 2 * cos (2 * pi / 5))"
    using c1 c2 by (intro mult_pos_pos) simp_all
  have n: "nat 5 = 5" by simp
  have P: "prod_list (map (\<lambda>q. 4 - q)
                (map (\<lambda>q. complex_of_real (4 * tan (pi * (1 / 2) / 2)) * q) (buttap (nat 5))))
      = complex_of_real (2048 * ((2 + 2 * cos (pi / 5)) * (2 + 2 * cos (2 * pi / 5))))"
    unfolding t n mult_1_right by (rule prod_poles_half)
  have "(4 * tan (pi * (1 / 2) / 2)) ^ nat 5
            * Re (1 / prod_list (map (\<lambda>q. 4 - q)
                (map (\<lambda>q. complex_of_real (4 * tan (pi * (1 / 2) / 2)) * q) (buttap (nat 5)))))
      = (4 * tan (pi * (1 / 2) / 2)) ^ nat 5
          * Re (1 / complex_of_real (2048 * ((2 + 2 * cos (pi / 5)) * (2 + 2 * cos (2 * pi / 5)))))"
    by (simp only: P)
  also have "\<dots> = 1 / (2 * ((2 + 2 * cos (pi / 5)) * (2 + 2 * cos (2 * pi / 5))))"
    unfolding t using pos by simp
  finally have "(4 * tan (pi * (1 / 2) / 2)) ^ nat 5
            * Re (1 / prod_list (map (\<lambda>q. 4 - q)
                (map (\<lambda>q. complex_of_real (4 * tan (pi * (1 / 2) / 2)) * q) (buttap (nat 5)))))
      = 1 / (2 * ((2 + 2 * cos (pi / 5)) * (2 + 2 * cos (2 * pi / 5))))" .
  then show ?thesis
    using butter_first_coefficient [of 5 "1 / 2"] by simp
qed

lemma gain_5_half_bounds:
  "1 / 32 \<le> 1 / (2 * ((2 + 2 * cos (pi / 5)) * (2 + 2 * cos (2 * pi / 5))))"
  "1 / (2 * ((2 + 2 * cos (pi / 5)) * (2 + 2 * cos (2 * pi / 5)))) \<le> 1 / 8"
proof -
  note c1 = cos_fifth_nonneg(1) and c2 = cos_fifth_nonneg(2)
  let ?u = "2 + 2 * cos (pi / 5)" and ?v = "2 + 2 * cos (2 * pi / 5)"
  have u: "2 \<le> ?u" "?u \<le> 4" using c1 cos_le_one [of "pi / 5"] by simp_all
  have v: "2 \<le> ?v" "?v \<le> 4" using c2 cos_le_one [of "2 * pi / 5"] by simp_all
  have lo: "2 * 2 \<le> ?u * ?v" using u v by (intro mult_mono) simp_all
  have hi: "?u * ?v \<le> 4 * 4" using u v by (intro mult_mono) simp_all
  show "1 / 32 \<le> 1 / (2 * (?u * ?v))"
    using lo hi by (intro divide_left_mono) simp_all
  show "1 / (2 * (?u * ?v)) \<le> 1 / 8"
    using lo hi by (intro divide_left_mono) simp_all
qed

section \<open>Non-finite samples through the filter\<close>

lemma nonfinite_fmul: "\<not> isfinite x \<Longrightarrow> \<not> isfinite (fmul (Fin b) x) \<and> \<not> isfinite (fmul x (Fin b))"
  by (cases x) (simp_all add: inf_of_sign_def)

lemma nonfinite_fadd: "isfinite z \<Longrightarrow> \<not> isfinite y \<Longrightarrow> \<not> isfinite (fadd z y)"
  by (cases z; cases y) simp_all

lemma linear_filter_nonfinite:
  "list_all isfinite z \<Longrightarrow> \<not> list_all isfinite xs \<Longrightarrow>
   \<not> list_all isfinite (linear_filter (b0 # bs) (a0 # as) z xs)"
proof (induction xs arbitrary: z)
  case Nil
  then show ?case by simp
next
  case (Cons x xs)
  define y where "y = (case z of [] \<Rightarrow> fmul x (Fin b0) | z0 # zs \<Rightarrow> fadd z0 (fmul (Fin b0) x))"
  have out: "linear_filter (b0 # bs) (a0 # as) z (x # xs)
      = y # linear_filter (b0 # bs) (a0 # as) (delays bs as z x y) xs"
    by (simp add: y_def Let_def)
  show ?case
  proof (cases "isfinite x")
    case True
    then have fy: "isfinite y"
      using Cons.prems(1) by (cases z) (simp_all add: y_def isfinite_fadd isfinite_fmul)
    have "list_all isfinite (delays bs as z x y)"
      using Cons.prems(1) True fy by (simp add: delays_finite)
    moreover have "\<not> list_all isfinite xs" using Cons.prems(2) True by simp
    ultimately show ?thesis using Cons.IH out by simp
  next
    case False
    then have "\<not> isfinite y"
      using Cons.prems(1) by (cases z) (simp_all add: y_def nonfinite_fmul nonfinite_fadd)
    then show ?thesis using out by simp
  qed
qed

lemma butter_lowpass_filter_nonfinite:
  assumes "butter_lowpass_filter data cutoff fs order = Inr filtered"
    and "\<not> list_all isfinite data"
  shows "\<not> list_all isfinite filtered"
proof -
  obtain b a where d: "design cutoff fs order = Inr (b, a)"
    and f: "filtered = linear_filter b a (replicate (nat order) (Fin 0)) data"
    using assms(1)
    by (auto simp: butter_lowpass_filter_cases split: sum.splits)
  obtain as where a: "a = 1 # as" and lb: "length b = Suc (length as)"
    using design_Inr [OF d] by auto
  obtain b0 bs where b: "b = b0 # bs" using lb by (cases b) auto
  show ?thesis
    using assms(2)
    by (simp add: f a b linear_filter_nonfinite list_all_isfinite_replicate)
qed

section \<open>The peak of a buffer with an infinite sample\<close>

lemma foldl_fmax_PInf: "NaN \<notin> set xs \<Longrightarrow> foldl fmax PInf xs = PInf"
proof (induction xs)
  case Nil
  then show ?case by simp
next
  case (Cons x xs)
  then have "fmax PInf x = PInf" by (cases x) (simp_all add: fmax_def)
  then show ?case using Cons by simp
qed

lemma foldl_fmax_has_PInf:
  "NaN \<notin> set xs \<Longrightarrow> x \<noteq> NaN \<Longrightarrow> PInf \<in> set xs \<Longrightarrow> foldl fmax x xs = PInf"
proof (induction xs arbitrary: x)
  case Nil
  then show ?case by simp
next
  case (Cons y ys)
  show ?case
  proof (cases "y = PInf")
    case True
    then have "fmax x y = PInf" using Cons.prems(2) by (cases x) (simp_all add: fmax_def)
    then show ?thesis using Cons.prems(1) by (simp add: foldl_fmax_PInf)
  next
    case False
    have "fmax x y \<noteq> NaN"
      using Cons.prems(1,2) by (cases x; cases y) (simp_all add: fmax_def)
    then show ?thesis using Cons False by simp
  qed
qed

lemma np_max_abs_infinite:
  assumes "NaN \<notin> set data" and "\<not> list_all isfinite data"
  shows "np_max (np_abs data) = Inr PInf"
proof -
  obtain x where x: "x \<in> set data" "\<not> isfinite x"
    using assms(2) by (auto simp: list_all_iff)
  have "x \<noteq> NaN" using assms(1) x(1) by auto
  then have "x = PInf \<or> x = NInf" using x(2) by (cases x) simp_all
  then have "fabs x = PInf" by auto
  then have p: "PInf \<in> set (map fabs data)" using x(1) by (force simp: image_iff)
  have n: "NaN \<notin> set (map fabs data)"
  proof
    assume "NaN \<in> set (map fabs data)"
    then obtain s where "s \<in> set data" "fabs s = NaN" by auto
    then show False using assms(1) by (simp add: fabs_NaN_iff)
  qed
  obtain y ys where d: "map fabs data = y # ys" using p by (cases "map fabs data") auto
  show ?thesis
  proof (cases "y = PInf")
    case True
    then show ?thesis using d n by (simp add: np_abs_def foldl_fmax_PInf)
  next
    case False
    have "NaN \<notin> set ys" "y \<noteq> NaN" "PInf \<in> set ys"
      using d n p False by auto
    then have "foldl fmax y ys = PInf" by (rule foldl_fmax_has_PInf)
    then show ?thesis using d by (simp add: np_abs_def)
  qed
qed

lemma gain_compensation_infinite:
  assumes "NaN \<notin> set data" and "\<not> list_all isfinite data" and "\<not> list_all isfinite filtered"
  shows "gain_compensation data filtered = Inl ParameterError"
  using assms
  by (simp add: gain_compensation_def np_max_abs_infinite normalize_def)

section \<open>The pipeline on finite buffers\<close>

lemma normalize_length: "normalize S = Inr nrm \<Longrightarrow> length nrm = length S"
  by (auto simp: normalize_def Let_def split: if_splits sum.splits)

lemma gain_compensation_length:
  "gain_compensation data filtered = Inr out \<Longrightarrow> length out = length filtered"
  by (auto simp: gain_compensation_def dest: normalize_length split: if_splits sum.splits)

lemma gain_compensation_finite:
  assumes "data \<noteq> []" and "list_all isfinite data"
    and "filtered \<noteq> []" and "list_all isfinite filtered"
  shows "\<exists>out. gain_compensation data filtered = Inr out \<and> list_all isfinite out"
proof -
  obtain rs where rs: "data = map Fin rs" using assms(2) isfinite_ex_map by blast
  obtain qs where qs: "filtered = map Fin qs" using assms(4) isfinite_ex_map by blast
  have ne: "rs \<noteq> []" "qs \<noteq> []" using assms(1,3) rs qs by auto
  show ?thesis
    unfolding rs qs gain_compensation_Fin [OF ne]
    by (simp add: isfinite_map_Fin list_all_iff)
qed

lemma process_audio_finite:
  assumes "data \<noteq> []" and "list_all isfinite data"
    and "fs \<noteq> 0" and "0 < cutoff / (fs / 2)"
  shows "\<exists>out. process_audio data fs cutoff = Inr out \<and> list_all isfinite out"
proof -
  obtain filtered where f: "butter_lowpass_filter data cutoff fs 5 = Inr filtered"
    using butter_lowpass_filter_returns [of fs cutoff 5 data] assms(3,4) by auto
  have "length filtered = length data" "list_all isfinite filtered"
    using butter_lowpass_filter_Inr(1,2) [OF f] assms(2) by auto
  then have "filtered \<noteq> []" "list_all isfinite filtered" using assms(1) by auto
  from gain_compensation_finite [OF assms(1,2) this] show ?thesis
    by (simp add: process_audio_def f)
qed

section \<open>Length preservation\<close>

text \<open>
  C2 (length preservation). Whenever the filter returns a buffer it has the length of its
  input, whenever the gain compensation returns a buffer it has the length of the
  filtered buffer, and so every buffer that the pipeline returns has exactly as many
  samples as the original.
\<close>

theorem length_preservation:
  "(butter_lowpass_filter data cutoff fs order = Inr filtered \<longrightarrow> length filtered = length data)
   \<and> (gain_compensation data' filtered' = Inr out' \<longrightarrow> length out' = length filtered')
   \<and> (process_audio data fs cutoff = Inr out \<longrightarrow> length out = length data)"
proof (intro conjI impI)
  assume "butter_lowpass_filter data cutoff fs order = Inr filtered"
  then show "length filtered = length data" by (rule butter_lowpass_filter_Inr(1))
next
  assume "gain_compensation data' filtered' = Inr out'"
  then show "length out' = length filtered'" by (rule gain_compensation_length)
next
  assume p: "process_audio data fs cutoff = Inr out"
  then obtain f where f: "butter_lowpass_filter data cutoff fs 5 = Inr f"
    and g: "gain_compensation data f = Inr out"
    by (auto simp: process_audio_def split: sum.splits)
  show "length out = length data"
    using butter_lowpass_filter_Inr(1) [OF f] gain_compensation_length [OF g] by simp
qed

theorem length_preservation_witness:
  "\<exists>out. process_audio [Fin 1, Fin (- 2), Fin 0] 44100 3000 = Inr out \<and> length out = 3"
proof -
  obtain out where o: "process_audio [Fin 1, Fin (- 2), Fin 0] 44100 3000 = Inr out"
    using process_audio_finite [of "[Fin 1, Fin (- 2), Fin 0]" 44100 3000] by auto
  have "length out = length [Fin 1, Fin (- 2), Fin 0]"
    using length_preservation [of "[Fin 1, Fin (- 2), Fin 0]" 3000 44100 5 "[]" "[]" "[]" "[]" out] o
    by blast
  then show ?thesis using o by simp
qed

section \<open>Silence\<close>

lemma foldl_fmax_zeros: "foldl fmax (Fin 0) (replicate n (Fin 0)) = Fin 0"
  by (induction n) (simp_all add: fmax_def)

text \<open>
  C5, as amended (silence invariance). For every length \<open>n \<ge> 1\<close> and every sample rate and
  cutoff for which the design succeeds (a non-zero rate and a positive normalised
  cutoff), the pipeline maps the all-zeros buffer of length \<open>n\<close> to itself.
\<close>

theorem silence_invariance:
  assumes "0 < n" and "fs \<noteq> 0" and "0 < cutoff / (fs / 2)"
  shows "process_audio (replicate n (Fin 0)) fs cutoff = Inr (replicate n (Fin 0))"
proof -
  obtain filtered where f: "butter_lowpass_filter (replicate n (Fin 0)) cutoff fs 5 = Inr filtered"
    using butter_lowpass_filter_returns [of fs cutoff 5] assms(2,3) by auto
  have z: "filtered = replicate n (Fin 0)"
    using butter_lowpass_filter_Inr(3) [OF f] by simp
  obtain m where n: "n = Suc m" using assms(1) by (cases n) auto
  have "np_max (np_abs (replicate n (Fin 0))) = Inr (Fin 0)"
    unfolding n by (simp add: np_abs_def foldl_fmax_zeros)
  then have "gain_compensation (replicate n (Fin 0)) filtered = Inr filtered"
    by (simp add: gain_compensation_def)
  then show ?thesis by (simp add: process_audio_def f z)
qed

theorem silence_invariance_witness:
  "process_audio (replicate 4 (Fin 0)) 44100 3000 = Inr (replicate 4 (Fin 0))"
  using silence_invariance [of 4 44100 3000] by simp

text \<open>
  The claim as stated fails at length 0 (ValueError from the maximum of an empty array)
  and at a zero cutoff (ValueError from \<open>butter\<close>).
\<close>

theorem silence_invariance_counterexample:
  "process_audio (replicate 0 (Fin 0)) 44100 3000 = Inl ValueError
   \<and> process_audio (replicate 3 (Fin 0)) 44100 0 = Inl ValueError"
proof -
  have "design 0 44100 5 = Inl ValueError"
    by (simp add: design_def normal_cutoff_cases butter_def)
  then have "process_audio (replicate 3 (Fin 0)) 44100 0 = Inl ValueError"
    by (simp add: process_audio_def butter_lowpass_filter_cases)
  then show ?thesis by (simp add: process_audio_Nil)
qed

section \<open>The gain compensation: where it fails\<close>

lemma process_audio_infinite:
  assumes "NaN \<notin> set data" and "\<not> list_all isfinite data"
    and "fs \<noteq> 0" and "0 < cutoff / (fs / 2)"
  shows "process_audio data fs cutoff = Inl ParameterError"
proof -
  obtain filtered where f: "butter_lowpass_filter data cutoff fs 5 = Inr filtered"
    using butter_lowpass_filter_returns [of fs cutoff 5 data] assms(3,4) by auto
  have "\<not> list_all isfinite filtered"
    using butter_lowpass_filter_nonfinite [OF f assms(2)] .
  then have "gain_compensation data filtered = Inl ParameterError"
    using assms(1,2) by (rule gain_compensation_infinite [rotated 2])
  then show ?thesis by (simp add: process_audio_def f)
qed

text \<open>
  C6, as amended (the gain compensation). The step returns a finite buffer for every
  non-empty finite original and non-empty finite filtered buffer, and when the original
  contains NaN it returns the filtered buffer unchanged, whatever it holds. It is not
  total: an empty original raises ValueError, and an original with an infinite sample
  and no NaN has the peak \<open>+inf\<close>, so a filtered buffer that is not all finite raises
  ParameterError; in the pipeline that is every such original, once the design has
  succeeded.
\<close>

theorem gain_compensation_contract:
  "(data \<noteq> [] \<and> list_all isfinite data \<and> filtered \<noteq> [] \<and> list_all isfinite filtered
      \<longrightarrow> (\<exists>out. gain_compensation data filtered = Inr out \<and> list_all isfinite out))
   \<and> (NaN \<in> set data \<longrightarrow> gain_compensation data filtered = Inr filtered)
   \<and> gain_compensation [] filtered = Inl ValueError
   \<and> (NaN \<notin> set data \<and> \<not> list_all isfinite data \<and> \<not> list_all isfinite filtered
      \<longrightarrow> gain_compensation data filtered = Inl ParameterError)
   \<and> (NaN \<notin> set data \<and> \<not> list_all isfinite data \<and> fs \<noteq> 0 \<and> 0 < cutoff / (fs / 2)
      \<longrightarrow> process_audio data fs cutoff = Inl ParameterError)"
proof (intro conjI impI)
  assume "data \<noteq> [] \<and> list_all isfinite data \<and> filtered \<noteq> [] \<and> list_all isfinite filtered"
  then show "\<exists>out. gain_compensation data filtered = Inr out \<and> list_all isfinite out"
    using gain_compensation_finite by blast
next
  assume "NaN \<in> set data"
  then show "gain_compensation data filtered = Inr filtered"
    by (simp add: gain_compensation_def np_max_abs_NaN)
next
  show "gain_compensation [] filtered = Inl ValueError"
    by (simp add: gain_compensation_def np_abs_def)
next
  assume "NaN \<notin> set data \<and> \<not> list_all isfinite data \<and> \<not> list_all isfinite filtered"
  then show "gain_compensation data filtered = Inl ParameterError"
    using gain_compensation_infinite by blast
next
  assume "NaN \<notin> set data \<and> \<not> list_all isfinite data \<and> fs \<noteq> 0 \<and> 0 < cutoff / (fs / 2)"
  then show "process_audio data fs cutoff = Inl ParameterError"
    using process_audio_infinite by blast
qed

theorem gain_compensation_contract_witness:
  "(\<exists>out. gain_compensation [Fin 1, Fin (- 2)] [Fin 3, Fin 4] = Inr out \<and> list_all isfinite out)
   \<and> gain_compensation [Fin 1, NaN] [PInf, NaN] = Inr [PInf, NaN]
   \<and> gain_compensation [NInf, Fin 1] [NInf, NaN] = Inl ParameterError
   \<and> process_audio [Fin 1, NInf] 44100 3000 = Inl ParameterError"
proof -
  have 1: "\<exists>out. gain_compensation [Fin 1, Fin (- 2)] [Fin 3, Fin 4] = Inr out \<and> list_all isfinite out"
    using gain_compensation_contract [of "[Fin 1, Fin (- 2)]" "[Fin 3, Fin 4]" 44100 3000]
    by simp
  have 2: "gain_compensation [Fin 1, NaN] [PInf, NaN] = Inr [PInf, NaN]"
    using gain_compensation_contract [of "[Fin 1, NaN]" "[PInf, NaN]" 44100 3000]
    by simp
  have 3: "gain_compensation [NInf, Fin 1] [NInf, NaN] = Inl ParameterError"
    using gain_compensation_contract [of "[NInf, Fin 1]" "[NInf, NaN]" 44100 3000]
    by simp
  have 4: "process_audio [Fin 1, NInf] 44100 3000 = Inl ParameterError"
    using gain_compensation_contract [of "[Fin 1, NInf]" "[]" 44100 3000]
    by simp
  show ?thesis using 1 2 3 4 by blast
qed

text \<open>
  The claim as stated fails: the step raises on the empty (hence finite) input, and it
  raises instead of propagating an infinite sample.
\<close>

theorem gain_compensation_contract_counterexample:
  "gain_compensation [] [] = Inl ValueError
   \<and> gain_compensation [PInf] [PInf] = Inl ParameterError
   \<and> gain_compensation [Fin 1, NInf] [Fin 1, NInf] = Inl ParameterError"
  by (simp add: gain_compensation_def np_abs_def normalize_def fmax_def)

section \<open>Peak restoration\<close>

lemma filter_half_first:
  "\<exists>rest. butter_lowpass_filter (Fin x # xs) 11025 44100 5 =
      Inr (Fin (1 / (2 * ((2 + 2 * cos (pi / 5)) * (2 + 2 * cos (2 * pi / 5)))) * x) # rest)
    \<and> length rest = length xs"
proof -
  let ?g = "1 / (2 * ((2 + 2 * cos (pi / 5)) * (2 + 2 * cos (2 * pi / 5))))"
  obtain bs as where b: "butter 5 (1 / 2) = Inr (?g # bs, 1 # as)"
    using butter_5_half by blast
  have d: "design 11025 44100 5 = Inr (?g # bs, 1 # as)"
    using b by (simp add: design_def normal_cutoff_cases)
  have five: "replicate (nat 5) (Fin 0) = Fin 0 # replicate 4 (Fin 0)"
    by (simp add: numeral_eq_Suc)
  have "butter_lowpass_filter (Fin x # xs) 11025 44100 5 =
      Inr (Fin (?g * x) # linear_filter (?g # bs) (1 # as)
             (delays bs as (Fin 0 # replicate 4 (Fin 0)) (Fin x) (Fin (?g * x))) xs)"
    unfolding butter_lowpass_filter_cases d five by (simp add: Let_def)
  then show ?thesis by (simp add: length_linear_filter)
qed

text \<open>
  C1, as amended (peak restoration). For every buffer of finite samples whose peak is
  strictly positive, and every sample rate and cutoff for which the filter returns a
  buffer whose own peak is not below the threshold of the normalisation
  (\<open>tiny = 2^-1022\<close>), the pipeline returns a buffer of the same length whose peak
  absolute value equals the peak of the original. The equality is exact in the exact
  arithmetic of the model; rounding is not modelled.
\<close>

theorem peak_restoration:
  assumes fin: "list_all isfinite data"
    and pk: "np_max (np_abs data) = Inr peak" and pos: "fless (Fin 0) peak"
    and flt: "butter_lowpass_filter data cutoff fs 5 = Inr filtered"
    and fpk: "np_max (np_abs filtered) = Inr fpeak" and thr: "\<not> fless fpeak (Fin tiny)"
  shows "\<exists>out. process_audio data fs cutoff = Inr out \<and> length out = length data
            \<and> np_max (np_abs out) = Inr peak"
proof -
  obtain rs where rs: "data = map Fin rs" using fin isfinite_ex_map by blast
  have rne: "rs \<noteq> []" using pk rs by (cases rs) (simp_all add: np_abs_def)
  let ?M = "Max (abs ` set rs)"
  have peak: "peak = Fin ?M" using pk np_max_abs_Fin [OF rne] rs by simp
  have M: "0 < ?M" using pos peak by simp
  have len: "length filtered = length data" and ff: "list_all isfinite filtered"
    using butter_lowpass_filter_Inr(1,2) [OF flt] fin by auto
  obtain qs where qs: "filtered = map Fin qs" using ff isfinite_ex_map by blast
  have qne: "qs \<noteq> []" using len rne rs qs by auto
  let ?P = "Max (abs ` set qs)"
  have fpeak: "fpeak = Fin ?P" using fpk np_max_abs_Fin [OF qne] qs by simp
  have P: "\<not> ?P < tiny" using thr fpeak by simp
  then have Ppos: "0 < ?P" using tiny_pos by linarith
  let ?out = "map (\<lambda>q. q / ?P * ?M) qs"
  have g: "gain_compensation data filtered = Inr (map Fin ?out)"
    unfolding rs qs gain_compensation_Fin [OF rne qne] using M P by (simp add: comp_def)
  have one: "?out \<noteq> []" using qne by simp
  have "np_max (np_abs (map Fin ?out)) = Inr (Fin (Max (abs ` set ?out)))"
    by (rule np_max_abs_Fin [OF one])
  also have "Max (abs ` set ?out) = ?M"
    by (rule Max_abs_scaled [OF qne Ppos refl M])
  finally have "np_max (np_abs (map Fin ?out)) = Inr peak" using peak by simp
  moreover have "process_audio data fs cutoff = Inr (map Fin ?out)"
    by (simp add: process_audio_def flt g)
  moreover have "length (map Fin ?out) = length data" using len qs by simp
  ultimately show ?thesis by blast
qed

lemma tiny_le: "tiny \<le> 1 / 32"
proof -
  have "(2::real) ^ 5 \<le> 2 ^ 1022" by (rule power_increasing) simp_all
  then have "(32::real) \<le> 2 ^ 1022" by simp
  then have "1 / (2::real) ^ 1022 \<le> 1 / 32" by (intro divide_left_mono) simp_all
  then show ?thesis by (simp only: tiny_def)
qed

theorem peak_restoration_witness:
  "\<exists>out. process_audio [Fin 1, Fin (- 2)] 44100 11025 = Inr out \<and> length out = 2
      \<and> np_max (np_abs out) = Inr (Fin 2)"
proof -
  define g where "g = 1 / (2 * ((2 + 2 * cos (pi / 5)) * (2 + 2 * cos (2 * pi / 5))))"
  have gb: "1 / 32 \<le> g" unfolding g_def by (rule gain_5_half_bounds(1))
  let ?data = "[Fin 1, Fin (- 2)]"
  obtain rest where "butter_lowpass_filter ?data 11025 44100 5 = Inr (Fin (g * 1) # rest)"
    using filter_half_first [of 1 "[Fin (- 2)]", folded g_def] by blast
  then have flt: "butter_lowpass_filter ?data 11025 44100 5 = Inr (Fin g # rest)" by simp
  have fin: "list_all isfinite ?data" by simp
  have pk: "np_max (np_abs ?data) = Inr (Fin 2)" by (simp add: np_abs_def fmax_def)
  have pos: "fless (Fin 0) (Fin 2)" by simp
  have ff: "list_all isfinite (Fin g # rest)"
    using butter_lowpass_filter_Inr(2) [OF flt] fin by blast
  obtain qs where qs: "Fin g # rest = map Fin qs"
    using isfinite_ex_map [OF ff] by (rule exE)
  have qne: "qs \<noteq> []" using qs by (cases qs) simp_all
  have gin: "g \<in> set qs" using qs by (cases qs) auto
  let ?P = "Max (abs ` set qs)"
  have fpk: "np_max (np_abs (Fin g # rest)) = Inr (Fin ?P)"
    unfolding qs by (rule np_max_abs_Fin [OF qne])
  have "\<bar>g\<bar> \<le> ?P" using gin by (intro Max_ge) auto
  then have "tiny \<le> ?P" using gb tiny_le by linarith
  then have thr: "\<not> fless (Fin ?P) (Fin tiny)" by simp
  have l: "length ?data = 2" by simp
  show ?thesis
    using peak_restoration [OF fin pk pos flt fpk thr] unfolding l by blast
qed

text \<open>
  The claim as stated fails in three ways: a zero cutoff makes \<open>butter\<close> raise, so there is
  no output; an infinite sample (peak \<open>+inf\<close>) makes the normalisation raise; and a
  finite buffer so quiet that the filtered peak falls below the threshold is not
  rescaled: for the single sample \<open>2^-1022\<close> at 44100 Hz and a cutoff of 11025 Hz the
  output peak is less than an eighth of the original peak.
\<close>

theorem peak_restoration_counterexample:
  "process_audio [Fin 1] 44100 0 = Inl ValueError
   \<and> process_audio [PInf] 44100 3000 = Inl ParameterError
   \<and> process_audio [Fin tiny] 44100 11025 =
       Inr [Fin (1 / (2 * ((2 + 2 * cos (pi / 5)) * (2 + 2 * cos (2 * pi / 5)))) * tiny * tiny)]
   \<and> 1 / (2 * ((2 + 2 * cos (pi / 5)) * (2 + 2 * cos (2 * pi / 5)))) * tiny * tiny \<le> tiny / 8"
proof -
  define g where "g = 1 / (2 * ((2 + 2 * cos (pi / 5)) * (2 + 2 * cos (2 * pi / 5))))"
  have g: "1 / 32 \<le> g" "g \<le> 1 / 8"
    unfolding g_def by (rule gain_5_half_bounds)+
  have "design 0 44100 5 = Inl ValueError"
    by (simp add: design_def normal_cutoff_cases butter_def)
  then have 1: "process_audio [Fin 1] 44100 0 = Inl ValueError"
    by (simp add: process_audio_def butter_lowpass_filter_cases)
  have 2: "process_audio [PInf] 44100 3000 = Inl ParameterError"
    by (rule process_audio_infinite) simp_all
  have t: "0 < tiny" by (rule tiny_pos)
  have "g * tiny \<le> 1 / 8 * tiny" using g(2) t by (intro mult_right_mono) simp_all
  then have gt: "g * tiny < tiny" using t by linarith
  have "0 < g" using g(1) by linarith
  then have gp: "0 < g * tiny" using t by (rule mult_pos_pos)
  obtain rest where flt: "butter_lowpass_filter [Fin tiny] 11025 44100 5 = Inr (Fin (g * tiny) # rest)"
    and "length rest = length ([] :: sample list)"
    using filter_half_first [of tiny "[]", folded g_def] by blast
  then have flt': "butter_lowpass_filter [Fin tiny] 11025 44100 5 = Inr (map Fin [g * tiny])"
    by simp
  have m1: "Max (abs ` set [tiny]) = tiny" using t by simp
  have m2: "Max (abs ` set [g * tiny]) = g * tiny" using gp by simp
  have "gain_compensation (map Fin [tiny]) (map Fin [g * tiny]) =
      Inr (if 0 < Max (abs ` set [tiny])
           then map (\<lambda>q. Fin (q / (if Max (abs ` set [g * tiny]) < tiny then 1
                                      else Max (abs ` set [g * tiny]))
                               * Max (abs ` set [tiny]))) [g * tiny]
           else map Fin [g * tiny])"
    by (rule gain_compensation_Fin) simp_all
  then have "gain_compensation (map Fin [tiny]) (map Fin [g * tiny]) = Inr [Fin (g * tiny * tiny)]"
    unfolding m1 m2 using t gt by simp
  then have 3: "process_audio [Fin tiny] 44100 11025 = Inr [Fin (g * tiny * tiny)]"
    using flt' by (simp add: process_audio_def)
  have "g * tiny * tiny \<le> 1 / 8 * tiny * tiny"
    using \<open>g * tiny \<le> 1 / 8 * tiny\<close> t by (intro mult_right_mono) simp_all
  moreover have "tiny \<le> 1" using tiny_le by linarith
  then have "1 / 8 * tiny * tiny \<le> 1 / 8 * tiny * 1" using t by (intro mult_left_mono) simp_all
  ultimately have 4: "g * tiny * tiny \<le> tiny / 8" by simp
  show ?thesis using 1 2 3 4 unfolding g_def by blast
qed

section \<open>The order 5 design is a stable low-pass filter\<close>

lemma np_poly_five_zeros_at_minus_one:
  "np_poly (replicate 5 (- 1 :: real)) = [1, 5, 10, 10, 5, 1]"
  by (simp add: np_poly_def convolve_root_def numeral_eq_Suc)

lemma np_poly_rev_five:
  "np_poly [a, b, c, d, e] = np_poly [e, d, c, b, (a :: complex)]"
  by (simp add: np_poly_def convolve_root_def algebra_simps)

lemma cnj_np_poly_five:
  "map cnj (np_poly [a, b, c, d, e]) = np_poly [cnj a, cnj b, cnj c, cnj d, cnj e]"
  by (simp add: np_poly_def convolve_root_def)

text \<open>Five roots that are closed under conjugation give real coefficients.\<close>

lemma np_poly_five_real:
  assumes "cnj c = c"
  shows "map complex_of_real (map Re (np_poly [cnj a, cnj b, c, b, a])) = np_poly [cnj a, cnj b, c, b, a]"
proof -
  have "map cnj (np_poly [cnj a, cnj b, c, b, a]) = np_poly [a, b, c, cnj b, cnj a]"
    using assms by (simp add: cnj_np_poly_five)
  also have "\<dots> = np_poly [cnj a, cnj b, c, b, a]"
    by (rule np_poly_rev_five)
  finally have fx: "map cnj (np_poly [cnj a, cnj b, c, b, a]) = np_poly [cnj a, cnj b, c, b, a]" .
  have "\<And>z. z \<in> set (np_poly [cnj a, cnj b, c, b, a]) \<Longrightarrow> complex_of_real (Re z) = z"
  proof -
    fix z assume "z \<in> set (np_poly [cnj a, cnj b, c, b, a])"
    then obtain i where i: "i < length (np_poly [cnj a, cnj b, c, b, a])"
      and z: "z = np_poly [cnj a, cnj b, c, b, a] ! i"
      by (auto simp: in_set_conv_nth)
    have "cnj z = map cnj (np_poly [cnj a, cnj b, c, b, a]) ! i"
      using i z by simp
    then have "cnj z = z" using fx z by simp
    then have "Im z = 0" by (simp add: complex_eq_iff)
    then show "complex_of_real (Re z) = z" by (simp add: complex_eq_iff)
  qed
  then show ?thesis by (simp add: map_idI comp_def)
qed

text \<open>A pole in the left half plane is mapped inside the unit circle.\<close>

lemma bilinear_inside_unit_circle:
  assumes "Re q < 0"
  shows "cmod ((4 + q) / (4 - q)) < 1"
proof -
  have p: "(cmod (4 + q))\<^sup>2 = (4 + Re q)\<^sup>2 + (Im q)\<^sup>2"
    by (simp add: cmod_power2)
  have m: "(cmod (4 - q))\<^sup>2 = (4 - Re q)\<^sup>2 + (Im q)\<^sup>2"
    by (simp add: cmod_power2)
  have "(4 + Re q)\<^sup>2 < (4 - Re q)\<^sup>2"
    using assms by (simp add: power2_eq_square algebra_simps)
  then have "(cmod (4 + q))\<^sup>2 < (cmod (4 - q))\<^sup>2"
    unfolding p m by simp
  then have "cmod (4 + q) < cmod (4 - q)"
    by (rule power2_less_imp_less) simp
  moreover have "0 < cmod (4 - q)"
    using calculation norm_ge_zero [of "4 + q"] by linarith
  ultimately show ?thesis by (simp add: norm_divide)
qed

text \<open>The order 5 design for any critical frequency: gain, poles and coefficients.\<close>

lemma conj_pair_scaled:
  "(4 + complex_of_real w * cis t) * (4 + complex_of_real w * cis (- t))
     = complex_of_real (16 + 8 * w * cos t + w * w)"
proof -
  have "w * (w * (cos t * cos t)) + w * (w * (sin t * sin t)) = w * w * (cos t * cos t + sin t * sin t)"
    by (simp only: distrib_left mult.assoc)
  then have "w * (w * (cos t * cos t)) + w * (w * (sin t * sin t)) = w * w" by simp
  then show ?thesis
    by (simp add: complex_eq_iff algebra_simps)
qed

lemma prod_poles_scaled:
  "prod_list (map (\<lambda>q. 4 - q) (map (\<lambda>q. complex_of_real w * q) (buttap 5)))
     = complex_of_real ((4 + w) * ((16 + 8 * w * cos (pi / 5) + w * w)
                                  * (16 + 8 * w * cos (2 * pi / 5) + w * w)))"
proof -
  let ?a = "4 + complex_of_real w * cis (pi / 5)"
  let ?a' = "4 + complex_of_real w * cis (- (pi / 5))"
  let ?b = "4 + complex_of_real w * cis (2 * pi / 5)"
  let ?b' = "4 + complex_of_real w * cis (- (2 * pi / 5))"
  have "prod_list (map (\<lambda>q. 4 - q) (map (\<lambda>q. complex_of_real w * q) (buttap 5)))
      = ?b' * (?a' * ((4 + complex_of_real w) * (?a * ?b)))"
    by (simp add: buttap_5)
  also have "\<dots> = (4 + complex_of_real w) * ((?a * ?a') * (?b * ?b'))"
    by (simp only: mult.commute mult.left_commute)
  also have "\<dots> = (4 + complex_of_real w)
        * (complex_of_real (16 + 8 * w * cos (pi / 5) + w * w)
           * complex_of_real (16 + 8 * w * cos (2 * pi / 5) + w * w))"
    by (simp only: conj_pair_scaled)
  also have "\<dots> = complex_of_real ((4 + w) * ((16 + 8 * w * cos (pi / 5) + w * w)
                                  * (16 + 8 * w * cos (2 * pi / 5) + w * w)))"
    by simp
  finally show ?thesis .
qed

lemma cos_fifth_pos: "0 < cos (pi / 5)" "0 < cos (2 * pi / 5)"
proof -
  show "0 < cos (pi / 5)"
  proof (rule cos_gt_zero_pi)
    show "- (pi / 2) < pi / 5" using pi_gt_zero by linarith
    show "pi / 5 < pi / 2" using pi_gt_zero by linarith
  qed
  show "0 < cos (2 * pi / 5)"
  proof (rule cos_gt_zero_pi)
    show "- (pi / 2) < 2 * pi / 5" using pi_gt_zero by linarith
    show "2 * pi / 5 < pi / 2" using pi_gt_zero by linarith
  qed
qed

lemma prod_list_divide:
  "prod_list (map (\<lambda>q. f q / g q) qs)
     = prod_list (map f qs) / (prod_list (map g (qs :: complex list)) :: complex)"
  by (induction qs) simp_all

lemma scaled_poles_five:
  "map (\<lambda>q. complex_of_real w * q) (buttap 5) =
     [complex_of_real w * (- cis (- (2 * pi / 5))), complex_of_real w * (- cis (- (pi / 5))),
      complex_of_real w * (- cis 0),
      complex_of_real w * (- cis (pi / 5)), complex_of_real w * (- cis (2 * pi / 5))]"
  by (simp add: buttap_5)

lemma scaled_poles_left_half_plane:
  assumes "0 < w"
  shows "list_all (\<lambda>q. Re q < 0) (map (\<lambda>q. complex_of_real w * q) (buttap 5))"
  unfolding scaled_poles_five
  using assms cos_fifth_pos by (simp add: mult_pos_pos)

lemma bilinear_poles_conjugate:
  "map (\<lambda>q. (4 + q) / (4 - q)) (map (\<lambda>q. complex_of_real w * q) (buttap 5)) =
     [cnj ((4 + complex_of_real w * (- cis (2 * pi / 5))) / (4 - complex_of_real w * (- cis (2 * pi / 5)))),
      cnj ((4 + complex_of_real w * (- cis (pi / 5))) / (4 - complex_of_real w * (- cis (pi / 5)))),
      (4 + complex_of_real w * (- cis 0)) / (4 - complex_of_real w * (- cis 0)),
      (4 + complex_of_real w * (- cis (pi / 5))) / (4 - complex_of_real w * (- cis (pi / 5))),
      (4 + complex_of_real w * (- cis (2 * pi / 5))) / (4 - complex_of_real w * (- cis (2 * pi / 5)))]"
  unfolding scaled_poles_five by (simp add: cis_cnj)

section \<open>The frequency response of the order 5 design\<close>

lemma horner_add:
  "length xs = length ys \<Longrightarrow>
   foldl (\<lambda>acc c. acc * x + c) (s + t) (map2 (+) xs ys)
     = foldl (\<lambda>acc c. acc * x + c) s xs
       + foldl (\<lambda>acc c. acc * x + c) t (ys :: 'a::comm_ring_1 list)"
proof (induction xs ys arbitrary: s t rule: list_induct2)
  case Nil
  then show ?case by simp
next
  case (Cons u us v vs)
  let ?h = "\<lambda>acc c. acc * x + c"
  have e: "(s + t) * x + (u + v) = (s * x + u) + (t * x + v)" by (simp add: algebra_simps)
  have "foldl ?h (s + t) (map2 (+) (u # us) (v # vs))
      = foldl ?h ((s + t) * x + (u + v)) (map2 (+) us vs)"
    by simp
  also have "\<dots> = foldl ?h (s * x + u) us + foldl ?h (t * x + v) vs"
    unfolding e by (rule Cons.IH)
  also have "\<dots> = foldl ?h s (u # us) + foldl ?h t (v # vs)"
    by simp
  finally show ?case .
qed

lemma horner_scaled:
  "foldl (\<lambda>acc c. acc * x + c) (k * s) (map (\<lambda>c. k * c) cs)
     = k * foldl (\<lambda>acc c. acc * x + c) s (cs :: 'a::comm_ring_1 list)"
proof (induction cs arbitrary: s)
  case Nil
  then show ?case by simp
next
  case (Cons c cs)
  have "k * s * x + k * c = k * (s * x + c)" by (simp add: algebra_simps)
  then show ?case using Cons.IH [of "s * x + c"] by simp
qed

lemma polyval_convolve_root:
  "polyval (convolve_root cs r) x = polyval cs x * (x - (r :: 'a::comm_ring_1))"
proof -
  let ?h = "\<lambda>acc c. acc * x + c"
  have "polyval (convolve_root cs r) x
      = foldl ?h (0 + 0) (map2 (+) (cs @ [0]) (0 # map (\<lambda>c. - r * c) cs))"
    by (simp add: polyval_def convolve_root_def)
  also have "\<dots> = foldl ?h 0 (cs @ [0]) + foldl ?h 0 (0 # map (\<lambda>c. - r * c) cs)"
    by (rule horner_add) simp
  also have "foldl ?h 0 (cs @ [0]) = polyval cs x * x"
    by (simp add: polyval_def)
  also have "foldl ?h 0 (0 # map (\<lambda>c. - r * c) cs) = foldl ?h (- r * 0) (map (\<lambda>c. - r * c) cs)"
    by simp
  also have "\<dots> = - r * polyval cs x"
    unfolding polyval_def by (rule horner_scaled)
  finally show ?thesis by (simp add: algebra_simps)
qed

lemma polyval_foldl_convolve_root:
  "polyval (foldl convolve_root cs rs) x = polyval cs x * prod_list (map (\<lambda>r. x - r) rs)"
  by (induction rs arbitrary: cs) (simp_all add: polyval_convolve_root algebra_simps)

lemma polyval_np_poly:
  "polyval (np_poly rs) x = prod_list (map (\<lambda>r. x - (r :: 'a::comm_ring_1)) rs)"
  unfolding np_poly_def polyval_foldl_convolve_root by (simp add: polyval_def)

lemma polyval_numerator:
  "polyval (map complex_of_real (map (\<lambda>c. K * c) [1, 5, 10, 10, 5, 1])) z
     = complex_of_real K * (z + 1) ^ 5"
  by (simp add: polyval_def power_def algebra_simps)

lemma cos_fifth_product: "cos (pi / 5) * cos (2 * pi / 5) = 1 / 4"
proof -
  have s: "0 < sin (pi / 5)"
    by (rule sin_gt_zero) (use pi_gt_zero in linarith)+
  have "sin (pi / 5) = sin (pi - pi / 5)" by (rule sin_pi_minus [symmetric])
  also have "pi - pi / 5 = 2 * (2 * (pi / 5))" by simp
  also have "sin (2 * (2 * (pi / 5))) = 2 * sin (2 * (pi / 5)) * cos (2 * (pi / 5))"
    by (rule sin_double)
  also have "sin (2 * (pi / 5)) = 2 * sin (pi / 5) * cos (pi / 5)"
    by (rule sin_double)
  finally have "sin (pi / 5) = 4 * (cos (pi / 5) * cos (2 * pi / 5)) * sin (pi / 5)"
    by (simp add: algebra_simps)
  then have "4 * (cos (pi / 5) * cos (2 * pi / 5)) = 1" using s by simp
  then show ?thesis by simp
qed

lemma imaginary_pair: "(\<i> + cis t) * (\<i> + cis (- t)) = 2 * \<i> * complex_of_real (cos t)"
proof -
  have "cos t * cos t + sin t * sin t = 1" by simp
  then show ?thesis by (simp add: complex_eq_iff algebra_simps)
qed

lemma prod_list_scaled:
  "prod_list (map (\<lambda>q. c * f q) qs) = c ^ length qs * (prod_list (map f (qs :: complex list)) :: complex)"
  by (induction qs) (simp_all add: algebra_simps)

lemma prod_negated_poles:
  "prod_list (map (\<lambda>q. 0 - q) (map (\<lambda>q. complex_of_real w * q) (buttap 5)))
     = complex_of_real (w ^ 5)"
proof -
  have c: "cis (- (2 * pi / 5)) * (cis (- (pi / 5)) * (cis (pi / 5) * cis (2 * pi / 5))) = 1"
    by (simp add: cis_mult)
  have "prod_list (map (\<lambda>q. 0 - q) (map (\<lambda>q. complex_of_real w * q) (buttap 5)))
      = complex_of_real (w ^ 5)
        * (cis (- (2 * pi / 5)) * (cis (- (pi / 5)) * (cis (pi / 5) * cis (2 * pi / 5))))"
    unfolding scaled_poles_five by (simp add: power_def)
  then show ?thesis unfolding c by simp
qed

lemma prod_cutoff_poles:
  "prod_list (map (\<lambda>q. \<i> * complex_of_real w - q) (map (\<lambda>q. complex_of_real w * q) (buttap 5)))
     = complex_of_real (w ^ 5) * (- (1 + \<i>))"
proof -
  let ?a = "\<i> + cis (pi / 5)" and ?a' = "\<i> + cis (- (pi / 5))"
  let ?b = "\<i> + cis (2 * pi / 5)" and ?b' = "\<i> + cis (- (2 * pi / 5))"
  have f: "\<And>t. \<i> * complex_of_real w - complex_of_real w * (- cis t) = complex_of_real w * (\<i> + cis t)"
    by (simp add: algebra_simps)
  have "prod_list (map (\<lambda>q. \<i> * complex_of_real w - q) (map (\<lambda>q. complex_of_real w * q) (buttap 5)))
      = complex_of_real w * ?b' * (complex_of_real w * ?a' * (complex_of_real w * (\<i> + cis 0)
          * (complex_of_real w * ?a * (complex_of_real w * ?b))))"
    unfolding scaled_poles_five by (simp only: list.map prod_list.Cons prod_list.Nil f mult_1_right)
  also have "\<dots> = complex_of_real (w ^ 5) * ((\<i> + 1) * ((?a * ?a') * (?b * ?b')))"
    by (simp add: power_def algebra_simps)
  also have "(?a * ?a') * (?b * ?b')
      = (2 * \<i> * complex_of_real (cos (pi / 5))) * (2 * \<i> * complex_of_real (cos (2 * pi / 5)))"
    by (simp only: imaginary_pair)
  also have "\<dots> = - (4 * complex_of_real (cos (pi / 5) * cos (2 * pi / 5)))"
    by (simp add: algebra_simps)
  also have "\<dots> = - 1"
    unfolding cos_fifth_product by simp
  finally show ?thesis by (simp add: algebra_simps)
qed

lemma cis_bilinear:
  assumes "cos (x / 2) \<noteq> 0"
  shows "4 * (cis x - 1) = \<i> * complex_of_real (4 * tan (x / 2)) * (cis x + 1)"
proof -
  define h where "h = x / 2"
  have x: "x = 2 * h" by (simp add: h_def)
  have c: "cos h \<noteq> 0" using assms by (simp add: h_def)
  have one: "sin h * sin h = 1 - cos h * cos h"
    using sin_cos_squared_add3 [of h] by linarith
  have s2: "sin (2 * h) = 2 * sin h * cos h" by (rule sin_double)
  have c2: "cos (2 * h) = 2 * (cos h * cos h) - 1"
    using cos_double_cos [of h] by (simp add: power2_eq_square)
  have t: "tan h * cos h = sin h" using c by (simp add: tan_def)
  have "tan h * sin (2 * h) = 2 * sin h * (tan h * cos h)"
    unfolding s2 by (simp add: algebra_simps)
  then have ts: "tan h * sin (2 * h) = 2 * (sin h * sin h)"
    unfolding t by simp
  have re: "cos (2 * h) - 1 = - (tan h * sin (2 * h))"
    unfolding ts c2 one by (simp add: algebra_simps)
  have "tan h * (cos (2 * h) + 1) = 2 * cos h * (tan h * cos h)"
    unfolding c2 by (simp add: algebra_simps)
  then have im: "sin (2 * h) = tan h * (cos (2 * h) + 1)"
    unfolding t s2 by (simp add: algebra_simps)
  show ?thesis
    unfolding x using re im by (simp add: complex_eq_iff h_def [symmetric] algebra_simps)
qed

text \<open>
  The order 5 design for any critical frequency \<open>0 < Wn < 1\<close>: the numerator is a
  positive multiple of \<open>(z + 1)^5\<close>, the denominator is the real monic polynomial whose
  five roots lie strictly inside the unit circle, the gain is 1 at DC and 0 at the Nyquist
  frequency, and the power is halved at the critical frequency.
\<close>

lemma butter_5_lowpass:
  assumes "0 < Wn" and "Wn < 1"
  shows "\<exists>K poles b a. butter 5 Wn = Inr (b, a)
      \<and> b = map (\<lambda>c. K * c) [1, 5, 10, 10, 5, 1] \<and> 0 < K
      \<and> a = map Re (np_poly poles) \<and> map complex_of_real a = np_poly poles
      \<and> length poles = 5 \<and> list_all (\<lambda>z. cmod z < 1) poles
      \<and> freq_response b a 1 = 1
      \<and> freq_response b a (- 1) = 0
      \<and> (cmod (freq_response b a (cis (pi * Wn))))\<^sup>2 = 1 / 2"
proof -
  define w where "w = 4 * tan (pi * Wn / 2)"
  have "0 < pi * Wn / 2" using assms(1) pi_gt_zero by simp
  moreover have "pi * Wn / 2 < pi / 2" using assms(2) pi_gt_zero by simp
  ultimately have "0 < tan (pi * Wn / 2)" by (rule tan_gt_zero)
  then have w: "0 < w" by (simp add: w_def)
  define R where "R = (4 + w) * ((16 + 8 * w * cos (pi / 5) + w * w)
                                  * (16 + 8 * w * cos (2 * pi / 5) + w * w))"
  have "0 < 16 + 8 * w * cos (pi / 5) + w * w"
    using w cos_fifth_pos(1) by (intro add_pos_pos mult_pos_pos) simp_all
  moreover have "0 < 16 + 8 * w * cos (2 * pi / 5) + w * w"
    using w cos_fifth_pos(2) by (intro add_pos_pos mult_pos_pos) simp_all
  ultimately have R: "0 < R" using w unfolding R_def by (intro mult_pos_pos) simp_all
  define K where "K = w ^ 5 / R"
  have K: "0 < K" using w R by (simp add: K_def)
  define qs where "qs = map (\<lambda>q. complex_of_real w * q) (buttap 5)"
  define P where "P = map (\<lambda>q. (4 + q) / (4 - q)) qs"
  have D: "prod_list (map (\<lambda>q. 4 - q) qs) = complex_of_real R"
    unfolding qs_def R_def by (rule prod_poles_scaled)
  have Kz: "w ^ 5 * Re (1 / prod_list (map (\<lambda>q. 4 - q) qs)) = K"
    unfolding D K_def by simp
  have n5: "nat 5 = 5" by simp
  have "butter 5 Wn = Inr (map (\<lambda>c. (w ^ 5 * Re (1 / prod_list (map (\<lambda>q. 4 - q) qs))) * c)
                             (np_poly (replicate 5 (- 1))),
                           map Re (np_poly P))"
    unfolding butter_def Let_def n5 P_def qs_def w_def using assms by simp
  then have b: "butter 5 Wn = Inr (map (\<lambda>c. K * c) [1, 5, 10, 10, 5, 1], map Re (np_poly P))"
    unfolding Kz np_poly_five_zeros_at_minus_one .
  have lp: "length P = 5" by (simp add: P_def qs_def buttap_def)
  have left: "list_all (\<lambda>q. Re q < 0) qs"
    unfolding qs_def using w by (rule scaled_poles_left_half_plane)
  then have stable: "list_all (\<lambda>z. cmod z < 1) P"
    unfolding P_def by (simp add: list_all_iff bilinear_inside_unit_circle)
  have "cnj ((4 + complex_of_real w * (- cis 0)) / (4 - complex_of_real w * (- cis 0)))
      = (4 + complex_of_real w * (- cis 0)) / (4 - complex_of_real w * (- cis 0))"
    by simp
  then have real: "map complex_of_real (map Re (np_poly P)) = np_poly P"
    unfolding P_def qs_def bilinear_poles_conjugate by (rule np_poly_five_real)
  have nz: "\<And>q. q \<in> set qs \<Longrightarrow> 4 - q \<noteq> 0"
  proof -
    fix q assume "q \<in> set qs"
    then have "Re q < 0" using left by (simp add: list_all_iff)
    then have "Re (4 - q) \<noteq> 0" by simp
    then show "4 - q \<noteq> 0" by auto
  qed
  let ?b = "map (\<lambda>c. K * c) [1, 5, 10, 10, 5, 1]"
  let ?a = "map Re (np_poly P)"
  have num: "\<And>z. polyval (map complex_of_real ?b) z = complex_of_real K * (z + 1) ^ 5"
    by (rule polyval_numerator)
  have den: "\<And>z u. 4 * (z - 1) = u * (z + 1) \<Longrightarrow>
      polyval (map complex_of_real ?a) z
        = (z + 1) ^ 5 * prod_list (map (\<lambda>q. u - q) qs) / complex_of_real R"
  proof -
    fix z u :: complex
    assume zu: "4 * (z - 1) = u * (z + 1)"
    have step: "\<And>q. q \<in> set qs \<Longrightarrow> z - (4 + q) / (4 - q) = ((z + 1) * (u - q)) / (4 - q)"
    proof -
      fix q assume "q \<in> set qs"
      then have n: "4 - q \<noteq> 0" by (rule nz)
      have "z * (4 - q) - (4 + q) = 4 * (z - 1) - q * (z + 1)" by (simp add: algebra_simps)
      also have "\<dots> = (z + 1) * (u - q)" unfolding zu by (simp add: algebra_simps)
      finally have "z * (4 - q) - (4 + q) = (z + 1) * (u - q)" .
      then show "z - (4 + q) / (4 - q) = ((z + 1) * (u - q)) / (4 - q)"
        using n by (simp add: field_simps)
    qed
    have "polyval (map complex_of_real ?a) z = polyval (np_poly P) z"
      unfolding real ..
    also have "\<dots> = prod_list (map (\<lambda>p. z - p) P)"
      by (rule polyval_np_poly)
    also have "\<dots> = prod_list (map (\<lambda>q. ((z + 1) * (u - q)) / (4 - q)) qs)"
      unfolding P_def using step by (simp add: comp_def cong: map_cong)
    also have "\<dots> = prod_list (map (\<lambda>q. (z + 1) * (u - q)) qs) / prod_list (map (\<lambda>q. 4 - q) qs)"
      by (rule prod_list_divide)
    also have "prod_list (map (\<lambda>q. (z + 1) * (u - q)) qs)
        = (z + 1) ^ length qs * prod_list (map (\<lambda>q. u - q) qs)"
      by (rule prod_list_scaled)
    finally show "polyval (map complex_of_real ?a) z
        = (z + 1) ^ 5 * prod_list (map (\<lambda>q. u - q) qs) / complex_of_real R"
      unfolding D using lp by (simp add: P_def)
  qed
  have resp: "\<And>z u. 4 * (z - 1) = u * (z + 1) \<Longrightarrow> z + 1 \<noteq> 0 \<Longrightarrow>
      freq_response ?b ?a z = complex_of_real (w ^ 5) / prod_list (map (\<lambda>q. u - q) qs)"
  proof -
    fix z u :: complex
    assume zu: "4 * (z - 1) = u * (z + 1)" and z1: "z + 1 \<noteq> 0"
    have Rn: "complex_of_real R \<noteq> 0" using R by simp
    have KR: "complex_of_real K * complex_of_real R = complex_of_real (w ^ 5)"
      using R by (simp add: K_def flip: of_real_mult)
    have "freq_response ?b ?a z
        = (complex_of_real K * (z + 1) ^ 5)
          / ((z + 1) ^ 5 * prod_list (map (\<lambda>q. u - q) qs) / complex_of_real R)"
      unfolding freq_response_def num den [OF zu] ..
    also have "\<dots> = (complex_of_real K * complex_of_real R) / prod_list (map (\<lambda>q. u - q) qs)"
      using z1 Rn by (simp add: field_simps)
    finally show "freq_response ?b ?a z = complex_of_real (w ^ 5) / prod_list (map (\<lambda>q. u - q) qs)"
      unfolding KR .
  qed
  have wn: "complex_of_real (w ^ 5) \<noteq> 0" using w by simp
  have "freq_response ?b ?a 1 = complex_of_real (w ^ 5) / prod_list (map (\<lambda>q. 0 - q) qs)"
    by (rule resp) simp_all
  also have "prod_list (map (\<lambda>q. 0 - q) qs) = complex_of_real (w ^ 5)"
    unfolding qs_def by (rule prod_negated_poles)
  finally have dc: "freq_response ?b ?a 1 = 1" using wn by simp
  have ny: "freq_response ?b ?a (- 1) = 0"
    unfolding freq_response_def num by simp
  have ch: "cos (pi * Wn / 2) \<noteq> 0"
  proof -
    have "0 < pi * Wn" using assms(1) pi_gt_zero by simp
    moreover have "pi * Wn < pi * 1" using assms(2) pi_gt_zero by (intro mult_strict_left_mono)
    ultimately have "0 < cos (pi * Wn / 2)"
      by (intro cos_gt_zero_pi) (use pi_gt_zero in linarith)+
    then show ?thesis by simp
  qed
  have "0 < sin (pi * Wn)"
  proof (rule sin_gt_zero)
    show "0 < pi * Wn" using assms(1) pi_gt_zero by simp
    show "pi * Wn < pi" using assms(2) pi_gt_zero by simp
  qed
  then have i1: "Im (cis (pi * Wn) + 1) \<noteq> 0" by simp
  have z1: "cis (pi * Wn) + 1 \<noteq> 0"
  proof
    assume "cis (pi * Wn) + 1 = 0"
    then have "Im (cis (pi * Wn) + 1) = Im 0" by (rule arg_cong)
    then show False using i1 by simp
  qed
  have zu: "4 * (cis (pi * Wn) - 1) = (\<i> * complex_of_real w) * (cis (pi * Wn) + 1)"
    unfolding w_def using cis_bilinear [of "pi * Wn"] ch by simp
  have "freq_response ?b ?a (cis (pi * Wn))
      = complex_of_real (w ^ 5) / prod_list (map (\<lambda>q. \<i> * complex_of_real w - q) qs)"
    using zu z1 by (rule resp)
  also have "prod_list (map (\<lambda>q. \<i> * complex_of_real w - q) qs)
      = complex_of_real (w ^ 5) * (- (1 + \<i>))"
    unfolding qs_def by (rule prod_cutoff_poles)
  finally have eq: "freq_response ?b ?a (cis (pi * Wn)) = 1 / (- (1 + \<i>))"
    using wn by simp
  have "cmod (freq_response ?b ?a (cis (pi * Wn))) = cmod (1 / (- (1 + \<i>)))"
    by (simp only: eq)
  also have "\<dots> = 1 / cmod (- (1 + \<i>))"
    by (simp only: norm_divide norm_one)
  also have "cmod (- (1 + \<i>)) = cmod (1 + \<i>)"
    by (rule norm_minus_cancel)
  finally have "cmod (freq_response ?b ?a (cis (pi * Wn))) = 1 / cmod (1 + \<i>)" .
  moreover have "(cmod (1 + \<i>))\<^sup>2 = 2" by (simp add: cmod_power2)
  ultimately have half: "(cmod (freq_response ?b ?a (cis (pi * Wn))))\<^sup>2 = 1 / 2"
    by (simp add: power_divide)
  show ?thesis using b K lp stable real dc ny half by blast
qed

section \<open>Clamping at the Nyquist frequency\<close>

text \<open>
  C3 (cutoff clamping). For a positive sample rate and a cutoff at or above the Nyquist
  frequency (\<open>cutoff / (fs / 2) \<ge> 1\<close>), the normalised cutoff handed to \<open>butter\<close> is
  \<open>0.99\<close> and the design does not fail: for every order it returns a numerator of
  \<open>order + 1\<close> coefficients and a monic denominator of \<open>order + 1\<close> coefficients, and the
  design with the cutoff equal to the sample rate is this same design. With the order 5
  of the pipeline the design is a valid, stable low-pass filter: the numerator is a
  positive multiple of \<open>(z + 1)^5\<close>, the denominator is the real polynomial whose five
  roots, the poles, lie strictly inside the unit circle, the gain is 1 at DC and 0 at the
  Nyquist frequency, and the power is halved exactly at the normalised frequency
  \<open>0.99\<close>.
\<close>

theorem cutoff_clamping:
  assumes "0 < fs" and "1 \<le> cutoff / (fs / 2)" and "0 \<le> order"
  shows "normal_cutoff cutoff fs = Inr 0.99
       \<and> design cutoff fs order = butter order 0.99
       \<and> (\<exists>b as. butter order 0.99 = Inr (b, 1 # as)
              \<and> length b = Suc (nat order) \<and> length as = nat order)
       \<and> design fs fs order = design cutoff fs order
       \<and> (\<exists>K poles b a. design cutoff fs 5 = Inr (b, a)
              \<and> b = map (\<lambda>c. K * c) [1, 5, 10, 10, 5, 1] \<and> 0 < K
              \<and> a = map Re (np_poly poles) \<and> map complex_of_real a = np_poly poles
              \<and> length poles = 5 \<and> list_all (\<lambda>z. cmod z < 1) poles
              \<and> freq_response b a 1 = 1
              \<and> freq_response b a (- 1) = 0
              \<and> (cmod (freq_response b a (cis (pi * 0.99))))\<^sup>2 = 1 / 2)"
proof -
  have nc: "normal_cutoff cutoff fs = Inr 0.99"
    using assms by (simp add: normal_cutoff_cases)
  have nc': "normal_cutoff fs fs = Inr 0.99"
    using assms by (simp add: normal_cutoff_cases)
  have d: "design cutoff fs order = butter order 0.99"
    by (simp add: design_def nc)
  have d': "design fs fs order = butter order 0.99"
    by (simp add: design_def nc')
  have d5: "design cutoff fs 5 = butter 5 0.99"
    by (simp add: design_def nc)
  have shape: "\<exists>b as. butter order 0.99 = Inr (b, 1 # as)
      \<and> length b = Suc (nat order) \<and> length as = nat order"
    using butter_returns [of order "0.99"] assms(3) by simp
  have lowpass: "\<exists>K poles b a. design cutoff fs 5 = Inr (b, a)
      \<and> b = map (\<lambda>c. K * c) [1, 5, 10, 10, 5, 1] \<and> 0 < K
      \<and> a = map Re (np_poly poles) \<and> map complex_of_real a = np_poly poles
      \<and> length poles = 5 \<and> list_all (\<lambda>z. cmod z < 1) poles
      \<and> freq_response b a 1 = 1
      \<and> freq_response b a (- 1) = 0
      \<and> (cmod (freq_response b a (cis (pi * 0.99))))\<^sup>2 = 1 / 2"
    unfolding d5 by (rule butter_5_lowpass) simp_all
  show ?thesis
    using nc d d' shape lowpass by (intro conjI) simp_all
qed

theorem cutoff_clamping_witness:
  "normal_cutoff 44100 44100 = Inr 0.99
    \<and> design 44100 44100 5 = butter 5 0.99
    \<and> (\<exists>b as. butter 5 0.99 = Inr (b, 1 # as) \<and> length b = 6 \<and> length as = 5)
    \<and> (\<exists>K poles b a. design 44100 44100 5 = Inr (b, a)
          \<and> b = map (\<lambda>c. K * c) [1, 5, 10, 10, 5, 1] \<and> 0 < K
          \<and> a = map Re (np_poly poles) \<and> map complex_of_real a = np_poly poles
          \<and> length poles = 5 \<and> list_all (\<lambda>z. cmod z < 1) poles
          \<and> freq_response b a 1 = 1
          \<and> freq_response b a (- 1) = 0
          \<and> (cmod (freq_response b a (cis (pi * 0.99))))\<^sup>2 = 1 / 2)"
proof -
  have h: "(0::real) < 44100" "(1::real) \<le> 44100 / (44100 / 2)" "(0::int) \<le> 5"
    by simp_all
  note c = cutoff_clamping [OF h]
  have 1: "normal_cutoff 44100 44100 = Inr 0.99" using c by (elim conjE)
  have 2: "design 44100 44100 5 = butter 5 0.99" using c by (elim conjE)
  have "\<exists>b as. butter 5 0.99 = Inr (b, 1 # as) \<and> length b = Suc (nat 5) \<and> length as = nat 5"
    using c by (elim conjE)
  then have 3: "\<exists>b as. butter 5 0.99 = Inr (b, 1 # as) \<and> length b = 6 \<and> length as = 5"
    by simp
  have 4: "\<exists>K poles b a. design 44100 44100 5 = Inr (b, a)
          \<and> b = map (\<lambda>c. K * c) [1, 5, 10, 10, 5, 1] \<and> 0 < K
          \<and> a = map Re (np_poly poles) \<and> map complex_of_real a = np_poly poles
          \<and> length poles = 5 \<and> list_all (\<lambda>z. cmod z < 1) poles
          \<and> freq_response b a 1 = 1
          \<and> freq_response b a (- 1) = 0
          \<and> (cmod (freq_response b a (cis (pi * 0.99))))\<^sup>2 = 1 / 2"
    using c by (elim conjE)
  show ?thesis using 1 2 3 4 by (intro conjI)
qed

end
